theory Spec2Isabelle
  imports Main
begin

section \<open>Strings and character classes\<close>

text \<open>
  The program is \<^verbatim>\<open>dict.py\<close>, a push-to-talk dictation script. A Python \<^verbatim>\<open>str\<close> is
  modelled as a \<^typ>\<open>string\<close>, one \<^typ>\<open>char\<close> for each code point, which covers the
  code points 0 to 255. The three tables below are those of Python 3 on that range:
  \<^verbatim>\<open>str.isspace\<close> (used by \<^verbatim>\<open>\s\<close> and by \<^verbatim>\<open>str.strip\<close>), the word characters of
  \<^verbatim>\<open>\w\<close> (used by \<^verbatim>\<open>\b\<close>), and the case folding of \<^verbatim>\<open>re.IGNORECASE\<close>.
\<close>

definition dq :: char where
  "dq = CHR 0x22"

definition nl :: char where
  "nl = CHR 0x0A"

definition isspace :: "char \<Rightarrow> bool" where
  "isspace c = (let n = (of_char c :: nat) in
     (9 \<le> n \<and> n \<le> 13) \<or> (28 \<le> n \<and> n \<le> 32) \<or> n = 133 \<or> n = 160)"

definition isword :: "char \<Rightarrow> bool" where
  "isword c = (let n = (of_char c :: nat) in
     (48 \<le> n \<and> n \<le> 57) \<or> (65 \<le> n \<and> n \<le> 90) \<or> n = 95 \<or> (97 \<le> n \<and> n \<le> 122) \<or>
     n = 170 \<or> n = 178 \<or> n = 179 \<or> n = 181 \<or> n = 185 \<or> n = 186 \<or>
     (188 \<le> n \<and> n \<le> 190) \<or> (192 \<le> n \<and> n \<le> 214) \<or> (216 \<le> n \<and> n \<le> 246) \<or>
     (248 \<le> n \<and> n \<le> 255))"

definition lower :: "char \<Rightarrow> char" where
  "lower c = (let n = (of_char c :: nat) in
     if (65 \<le> n \<and> n \<le> 90) \<or> (192 \<le> n \<and> n \<le> 214) \<or> (216 \<le> n \<and> n \<le> 222)
     then char_of (n + 32) else c)"

section \<open>Regular expressions as \<^verbatim>\<open>re\<close> runs them\<close>

text \<open>
  The constructs that the patterns of the program use. \<open>Str\<close> is a run of literal
  characters, \<open>Set\<close> a bracketed set, \<open>Space\<close> is \<^verbatim>\<open>\s\<close>, \<open>Bound\<close> is \<^verbatim>\<open>\b\<close>,
  \<open>Opt\<close>, \<open>Star\<close> and \<open>Plus\<close> are the greedy \<^verbatim>\<open>?\<close>, \<^verbatim>\<open>*\<close> and \<^verbatim>\<open>+\<close>, \<open>Group\<close> is
  the capturing group number one and \<open>Backref\<close> is \<^verbatim>\<open>\1\<close>. A non-capturing group
  \<^verbatim>\<open>(?:...)\<close> is only bracketing. Every pattern of the program is compiled with
  \<^verbatim>\<open>re.IGNORECASE\<close> or contains no letter, so literals compare after case folding.
\<close>

datatype regex =
    Eps
  | Str string
  | Set string
  | Space
  | Bound
  | Seq regex regex
  | Opt regex
  | Star regex
  | Plus regex
  | Group regex
  | Backref

text \<open>
  A position of the matcher: the character before the position (none at the start of
  the string), the text from the position on, the number of characters the match has
  consumed so far, and the text of group one when it has been captured.
\<close>

record mstate =
  prev :: "char option"
  rest :: string
  used :: nat
  grp :: "string option"

definition start :: "char option \<Rightarrow> string \<Rightarrow> mstate" where
  "start p s = \<lparr>prev = p, rest = s, used = 0, grp = None\<rparr>"

definition advance :: "nat \<Rightarrow> mstate \<Rightarrow> mstate" where
  "advance n m = (if n = 0 then m else
     m\<lparr>prev := Some (rest m ! (n - 1)), rest := drop n (rest m), used := used m + n\<rparr>)"

definition looking_at :: "string \<Rightarrow> mstate \<Rightarrow> bool" where
  "looking_at w m = (length w \<le> length (rest m) \<and>
     map lower (take (length w) (rest m)) = map lower w)"

definition at_boundary :: "mstate \<Rightarrow> bool" where
  "at_boundary m =
     ((case prev m of None \<Rightarrow> False | Some c \<Rightarrow> isword c) \<noteq>
      (case rest m of [] \<Rightarrow> False | c # _ \<Rightarrow> isword c))"

text \<open>
  A greedy loop: each further round of the body is tried before stopping, and a round
  that consumed nothing ends the loop, as the \<^verbatim>\<open>sre\<close> engine does. The counter bounds the
  rounds by the length of the text left, which rounds that consume can never exceed.
\<close>

fun loop :: "(mstate \<Rightarrow> mstate list) \<Rightarrow> nat \<Rightarrow> mstate \<Rightarrow> mstate list" where
  "loop f 0 m = [m]"
| "loop f (Suc n) m =
     concat (map (\<lambda>m'. if used m < used m' then loop f n m' else [m']) (f m)) @ [m]"

text \<open>
  \<open>run r m\<close> lists every way in which \<open>r\<close> matches at \<open>m\<close>, in the order in which the
  backtracking engine tries them: the head of the list is the match that \<^verbatim>\<open>re\<close> reports.
\<close>

primrec run :: "regex \<Rightarrow> mstate \<Rightarrow> mstate list" where
  "run Eps m = [m]"
| "run (Str w) m = (if looking_at w m then [advance (length w) m] else [])"
| "run (Set cs) m = (case rest m of [] \<Rightarrow> []
     | c # _ \<Rightarrow> if lower c \<in> set (map lower cs) then [advance 1 m] else [])"
| "run Space m = (case rest m of [] \<Rightarrow> []
     | c # _ \<Rightarrow> if isspace c then [advance 1 m] else [])"
| "run Bound m = (if at_boundary m then [m] else [])"
| "run (Seq a b) m = concat (map (run b) (run a m))"
| "run (Opt a) m = run a m @ [m]"
| "run (Star a) m = loop (run a) (length (rest m)) m"
| "run (Plus a) m = concat (map (\<lambda>m'. loop (run a) (length (rest m')) m') (run a m))"
| "run (Group a) m =
     map (\<lambda>m'. m'\<lparr>grp := Some (take (used m' - used m) (rest m))\<rparr>) (run a m)"
| "run Backref m = (case grp m of None \<Rightarrow> []
     | Some g \<Rightarrow> if looking_at g m then [advance (length g) m] else [])"

definition cat :: "regex list \<Rightarrow> regex" where
  "cat rs = foldr Seq rs Eps"

text \<open>
  The match at one position: the first way that is allowed. After an empty match the
  engine must advance, so a second empty match at the same position is refused.
\<close>

definition match_at :: "regex \<Rightarrow> bool \<Rightarrow> char option \<Rightarrow> string \<Rightarrow> mstate option" where
  "match_at r must_advance p s =
     List.find (\<lambda>m. if must_advance then 0 < used m else True) (run r (start p s))"

text \<open>A replacement template: literal text and references to group one.\<close>

datatype piece = Text string | Group1

fun expand :: "piece list \<Rightarrow> mstate \<Rightarrow> string" where
  "expand [] m = []"
| "expand (Text t # ps) m = t @ expand ps m"
| "expand (Group1 # ps) m = (case grp m of None \<Rightarrow> [] | Some g \<Rightarrow> g) @ expand ps m"

text \<open>
  \<^verbatim>\<open>re.sub\<close>: scan from the left; where the pattern matches, emit the expanded template
  and go on after the match; elsewhere copy one character. An empty match is replaced
  too, and is followed by a search for a non-empty match at the same position.
\<close>

fun re_sub_from :: "regex \<Rightarrow> piece list \<Rightarrow> char option \<Rightarrow> string \<Rightarrow> string" where
  "re_sub_from r t p [] = (case match_at r False p [] of None \<Rightarrow> [] | Some m \<Rightarrow> expand t m)"
| "re_sub_from r t p (c # cs) =
     (case match_at r False p (c # cs) of
        None \<Rightarrow> c # re_sub_from r t (Some c) cs
      | Some m \<Rightarrow>
          if 0 < used m then expand t m @ re_sub_from r t (prev m) (drop (used m - 1) cs)
          else expand t m @
            (case match_at r True p (c # cs) of
               None \<Rightarrow> c # re_sub_from r t (Some c) cs
             | Some m' \<Rightarrow> expand t m' @ re_sub_from r t (prev m') (drop (used m' - 1) cs)))"

definition re_sub :: "regex \<Rightarrow> piece list \<Rightarrow> string \<Rightarrow> string" where
  "re_sub r t s = re_sub_from r t None s"

text \<open>\<^verbatim>\<open>str.replace\<close>: every occurrence, from the left, without overlap.\<close>

fun replace :: "string \<Rightarrow> string \<Rightarrow> string \<Rightarrow> string" where
  "replace old new [] = (if old = [] then new else [])"
| "replace old new (c # cs) =
     (if old = [] then new @ c # replace old new cs
      else if take (length old) (c # cs) = old
        then new @ replace old new (drop (length old - 1) cs)
        else c # replace old new cs)"

text \<open>\<^verbatim>\<open>str.strip\<close> with no argument: whitespace off both ends.\<close>

definition strip :: "string \<Rightarrow> string" where
  "strip s = rev (dropWhile isspace (rev (dropWhile isspace s)))"

section \<open>The rewrite tables and \<^verbatim>\<open>clean_transcript\<close>\<close>

definition trail :: "regex list" where
  "trail = [Opt (Set '',.?''), Opt (Str '' '')]"

definition REPLACEMENTS_REAL :: "(regex \<times> piece list) list" where
  "REPLACEMENTS_REAL =
    [(cat ([Bound, Str ''actual new'', Opt (Str '' ''), Str ''line'', Bound] @ trail),
        [Text ''NEW_LINE_PLACEHOLDER'']),
     (cat ([Bound, Str ''actual inverted comma'', Bound] @ trail),
        [Text ''INVERTED_COMMA_PLACEHOLDER'']),
     (cat ([Bound, Str ''actual comma'', Bound] @ trail),
        [Text ''COMMA_PLACEHOLDER'']),
     (cat ([Bound, Str ''actual full stop'', Bound] @ trail),
        [Text ''FULL_STOP_PLACEHOLDER''])]"

definition REPLACEMENTS :: "(regex \<times> piece list) list" where
  "REPLACEMENTS =
    [(cat ([Bound, Str ''new'', Opt (Str '' ''), Str ''line'', Bound] @ trail), [Text [nl]]),
     (cat [Bound, Str ''inverted comma'', Bound, Opt (Set '',.?'')], [Text [dq]]),
     (cat ([Bound, Str ''comma'', Bound] @ trail), [Text '', '']),
     (cat ([Bound, Str ''full stop'', Bound] @ trail), [Text ''. ''])]"

definition PLACEHOLDERS :: "(string \<times> string) list" where
  "PLACEHOLDERS =
    [(''NEW_LINE_PLACEHOLDER'', ''new line ''),
     (''INVERTED_COMMA_PLACEHOLDER'', ''inverted comma ''),
     (''COMMA_PLACEHOLDER'', ''comma ''),
     (''FULL_STOP_PLACEHOLDER'', ''full stop '')]"

definition sub_all :: "(regex \<times> piece list) list \<Rightarrow> string \<Rightarrow> string" where
  "sub_all rules s = foldl (\<lambda>temp (pattern, replacement). re_sub pattern replacement temp) s rules"

definition protect :: "string \<Rightarrow> string" where
  "protect s = sub_all REPLACEMENTS_REAL s"

definition literal_substitute :: "string \<Rightarrow> string" where
  "literal_substitute s = sub_all REPLACEMENTS s"

definition restore :: "string \<Rightarrow> string" where
  "restore s = foldl (\<lambda>temp (placeholder, text). replace placeholder text temp) s PLACEHOLDERS"

definition clean_transcript :: "string \<Rightarrow> string" where
  "clean_transcript transcript = restore (literal_substitute (protect transcript))"

section \<open>The punctuation clean-up of \<^verbatim>\<open>stop_recording_and_process\<close>\<close>

definition punct :: string where
  "punct = '',.!?''"

definition CLEANUP :: "(regex \<times> piece list) list" where
  "CLEANUP =
    [(cat [Group (Set punct), Plus (cat [Star Space, Backref])], [Group1]),
     (cat [Str '','', Star Space, Str ''.''], [Text ''.'']),
     (cat [Plus Space, Group (Set punct)], [Group1]),
     (cat [Str [dq], Plus Space], [Text [dq]]),
     (cat [Plus Space, Str [dq]], [Text [dq]]),
     (cat [Str [dq], Str '',''], [Text [dq]]),
     (cat [Str '','', Str [dq]], [Text ('' '' @ [dq])])]"

definition cleanup :: "string \<Rightarrow> string" where
  "cleanup cleaned = sub_all CLEANUP cleaned"

definition normalize :: "string \<Rightarrow> string" where
  "normalize transcript = cleanup (clean_transcript transcript)"

section \<open>The capture controller and the processing of one session\<close>

text \<open>
  The module keeps two globals, \<^verbatim>\<open>recording\<close> and \<^verbatim>\<open>audio_data\<close>. The state below holds
  them together with what the program has done to the outside: the lines printed, the
  strings typed through the keyboard controller, and the audio of each request sent to
  the transcription service. The last field holds the exception that has left a handler
  of the keyboard listener without being caught, if there is one. Samples are of any
  type: the scaling of the captured floats to 16-bit integers happens between the
  concatenation and the request and nothing here depends on it.
\<close>

datatype key = Ctrl_r | Other_key string

definition KEY :: key where
  "KEY = Ctrl_r"

record 'a state =
  recording :: bool
  audio_data :: "'a list list"
  printed :: "string list"
  typed :: "string list"
  requests :: "'a list list"
  uncaught :: "string option"

text \<open>
  What becomes of the audio of a session is outside the program, and is the outcome of
  the session. \<^verbatim>\<open>np.concatenate\<close>, the scaling, \<^verbatim>\<open>tempfile.NamedTemporaryFile\<close> and
  \<^verbatim>\<open>wavfile.write\<close> run before the \<^verbatim>\<open>try\<close> statement: an exception of theirs is
  \<open>Raise_before_try\<close>. Inside the \<^verbatim>\<open>try\<close> statement, \<^verbatim>\<open>apply_whisper\<close> raises an \<^verbatim>\<open>OpenAIError\<close>
  or another exception, or it returns the text of the response; then
  \<^verbatim>\<open>keyboard_controller.type\<close>, when it is called, either returns (\<open>Transcript\<close>) or raises
  after it has typed some of the characters (\<open>Type_raises\<close>, with the text of the
  response, the number of characters typed and the exception). The outcome is a
  function of the number of earlier requests and of the audio, so that the same audio
  may fail once and succeed later.
\<close>

datatype outcome =
    Transcript string
  | Raise_OpenAIError string
  | Raise_Exception string
  | Raise_before_try string
  | Type_raises string nat string

type_synonym 'a world = "nat \<Rightarrow> 'a list \<Rightarrow> outcome"

definition print :: "string \<Rightarrow> 'a state \<Rightarrow> 'a state" where
  "print line st = st\<lparr>printed := printed st @ [line]\<rparr>"

definition start_recording :: "'a state \<Rightarrow> 'a state" where
  "start_recording st = print ''Listening...'' (st\<lparr>recording := True, audio_data := []\<rparr>)"

text \<open>
  The function has no handler for what is raised before the \<^verbatim>\<open>try\<close> statement: that
  exception leaves the function, and with it \<^verbatim>\<open>on_release\<close>, after the two assignments
  and the first \<^verbatim>\<open>print\<close>. The two \<^verbatim>\<open>except\<close> clauses catch what is raised inside, by the
  request or by the typing.
\<close>

definition stop_recording_and_process :: "'a world \<Rightarrow> 'a state \<Rightarrow> 'a state" where
  "stop_recording_and_process world st =
     (let st1 = print ''Transcribing...'' (st\<lparr>recording := False\<rparr>) in
      if audio_data st1 = [] then print ''No audio recorded'' st1
      else
        let audio_np = concat (audio_data st1);
            st2 = st1\<lparr>requests := requests st1 @ [audio_np]\<rparr>
        in case world (length (requests st1)) audio_np of
             Raise_before_try e \<Rightarrow> st1\<lparr>uncaught := Some e\<rparr>
           | Transcript text \<Rightarrow>
               (let transcript = strip text in
                if transcript \<noteq> [] then
                  st2\<lparr>typed := typed st2 @ [cleanup (clean_transcript transcript) @ '' '']\<rparr>
                else st2)
           | Type_raises text n e \<Rightarrow>
               (let transcript = strip text in
                if transcript \<noteq> [] then
                  print (''Error: '' @ e)
                    (st2\<lparr>typed := typed st2 @
                       [take n (cleanup (clean_transcript transcript) @ '' '')]\<rparr>)
                else st2)
           | Raise_OpenAIError e \<Rightarrow> print (''OpenAI error: '' @ e) st2
           | Raise_Exception e \<Rightarrow> print (''Error: '' @ e) st2)"

text \<open>
  The line that the two \<^verbatim>\<open>except\<close> clauses print when the request of a session fails.
\<close>

definition failure_line :: "outcome \<Rightarrow> string option" where
  "failure_line r = (case r of
       Raise_OpenAIError e \<Rightarrow> Some (''OpenAI error: '' @ e)
     | Raise_Exception e \<Rightarrow> Some (''Error: '' @ e)
     | _ \<Rightarrow> None)"

definition on_press :: "key \<Rightarrow> 'a state \<Rightarrow> 'a state" where
  "on_press k st = (if k = KEY \<and> \<not> recording st then start_recording st else st)"

definition on_release :: "'a world \<Rightarrow> key \<Rightarrow> 'a state \<Rightarrow> 'a state" where
  "on_release world k st =
     (if k = KEY \<and> recording st then stop_recording_and_process world st else st)"

definition callback :: "'a list \<Rightarrow> string option \<Rightarrow> 'a state \<Rightarrow> 'a state" where
  "callback indata status st =
     (let st1 = (case status of None \<Rightarrow> st | Some msg \<Rightarrow> print (''Audio status: '' @ msg) st)
      in if recording st1 then st1\<lparr>audio_data := audio_data st1 @ [indata]\<rparr> else st1)"

datatype 'a event = Press key | Release key | Frames "'a list" "string option"

fun handle :: "'a world \<Rightarrow> 'a state \<Rightarrow> 'a event \<Rightarrow> 'a state" where
  "handle w st (Press k) = on_press k st"
| "handle w st (Release k) = on_release w k st"
| "handle w st (Frames indata status) = callback indata status st"

definition run_events :: "'a world \<Rightarrow> 'a event list \<Rightarrow> 'a state \<Rightarrow> 'a state" where
  "run_events w evs st = foldl (handle w) st evs"

definition initial :: "'a state" where
  "initial = \<lparr>recording = False, audio_data = [], printed = [], typed = [], requests = [],
     uncaught = None\<rparr>"

text \<open>
  \<^verbatim>\<open>main\<close> prints two lines, starts the keyboard listener and the input stream, and
  waits in \<^verbatim>\<open>listener.join()\<close>. The listener calls the handlers event by event; when an
  exception leaves a handler the listener stops, and the events that follow are not
  handled. \<^verbatim>\<open>join\<close> then raises that exception in \<^verbatim>\<open>main\<close>, whose last \<^verbatim>\<open>except\<close> clause
  prints it, and \<^verbatim>\<open>main\<close> returns. A keyboard interrupt ends the wait as well, with a
  line of its own. The arguments of \<open>main\<close> are \<^verbatim>\<open>WHISPER_MODEL\<close>, the outcomes of the
  sessions, the events, and whether an interrupt follows them.
\<close>

fun listen :: "'a world \<Rightarrow> 'a state \<Rightarrow> 'a event list \<Rightarrow> 'a state" where
  "listen w st [] = st"
| "listen w st (e # evs) =
     (let st1 = handle w st e in
      case uncaught st1 of None \<Rightarrow> listen w st1 evs | Some x \<Rightarrow> st1)"

definition banner :: "string \<Rightarrow> string list" where
  "banner model =
     [''Ready to transcribe with '' @ model @ ''.'',
      ''Hold '' @ [CHR 0x27] @ ''ctrl_r'' @ [CHR 0x27] @ '' to transcribe (Ctrl+C to quit).'']"

definition main :: "string \<Rightarrow> 'a world \<Rightarrow> 'a event list \<Rightarrow> bool \<Rightarrow> 'a state" where
  "main model w evs interrupt =
     (let st = listen w (initial\<lparr>printed := banner model\<rparr>) evs in
      case uncaught st of
        Some e \<Rightarrow> print (''Error: '' @ e) st
      | None \<Rightarrow> if interrupt then print (nl # ''Exiting on user interrupt.'') st else st)"




text \<open>Sessions of which the first request fails and the later requests succeed.\<close>

definition flaky :: "nat world" where
  "flaky n a = (if n = 0 then Raise_OpenAIError ''Connection error.'' else Transcript '' comma '')"

text \<open>
  Two more environments: in one the temporary file cannot be written for one
  recording, in the other the keyboard controller gives up on the first session after
  one character. Both serve every other session.
\<close>

definition unwritable :: "nat world" where
  "unwritable n a = (if a = [1, 2] then Raise_before_try ''Permission denied''
     else Transcript '' comma '')"

definition untypable :: "nat world" where
  "untypable n a = (if n = 0 then Type_raises '' comma '' 1 ''no key for the character''
     else Transcript '' comma '')"

section \<open>The literal-substitute phase in words\<close>

text \<open>
  The literal-substitute phase in the words of the specification, for comparison with
  the regular expressions. A spoken word stands at a position when no word character
  comes before it, the text reads as the word once case is folded, and no word
  character follows. What the match takes after the word is at most one of the marks
  comma, period and question mark, and then, for the rules that say so, at most one
  space character.
\<close>

definition no_word_before :: "char option \<Rightarrow> bool" where
  "no_word_before p = (case p of None \<Rightarrow> True | Some c \<Rightarrow> \<not> isword c)"

definition no_word_next :: "string \<Rightarrow> bool" where
  "no_word_next s = (case s of [] \<Rightarrow> True | c # _ \<Rightarrow> \<not> isword c)"

definition spoken_at :: "string \<Rightarrow> char option \<Rightarrow> string \<Rightarrow> bool" where
  "spoken_at w p s = (no_word_before p \<and> length w \<le> length s \<and>
     map lower (take (length w) s) = w \<and> no_word_next (drop (length w) s))"

definition mark_len :: "string \<Rightarrow> nat" where
  "mark_len s = (case s of [] \<Rightarrow> 0 | c # _ \<Rightarrow> if c \<in> set '',.?'' then 1 else 0)"

definition space_len :: "string \<Rightarrow> nat" where
  "space_len s = (case s of [] \<Rightarrow> 0 | c # _ \<Rightarrow> if c = CHR '' '' then 1 else 0)"

definition spoken_len :: "string list \<Rightarrow> bool \<Rightarrow> char option \<Rightarrow> string \<Rightarrow> nat option" where
  "spoken_len ws sp p s = (case filter (\<lambda>w. spoken_at w p s) ws of [] \<Rightarrow> None
     | w # _ \<Rightarrow> (let a = length w + mark_len (drop (length w) s)
                in Some (if sp then a + space_len (drop a s) else a)))"

text \<open>
  One rule applied to a text: from the left, each spoken word found, with what the
  match takes after it, is replaced by the output of the rule.
\<close>

fun spoken_sub :: "string list \<Rightarrow> bool \<Rightarrow> string \<Rightarrow> char option \<Rightarrow> string \<Rightarrow> string" where
  "spoken_sub ws sp out p [] = []"
| "spoken_sub ws sp out p (c # cs) = (case spoken_len ws sp p (c # cs) of
      None \<Rightarrow> c # spoken_sub ws sp out (Some c) cs
    | Some n \<Rightarrow> out @ spoken_sub ws sp out (Some ((c # cs) ! (n - 1))) (drop (n - 1) cs))"

text \<open>Auxiliary notions of the proofs about the spoken-word rules.\<close>

definition letter :: "char \<Rightarrow> bool" where
  "letter c = (97 \<le> (of_char c :: nat) \<and> (of_char c :: nat) \<le> 122)"

definition tail :: "bool \<Rightarrow> regex list" where
  "tail sp = (if sp then trail else [Opt (Set '',.?'')])"

definition tail_len :: "bool \<Rightarrow> string \<Rightarrow> nat" where
  "tail_len sp s = (let a = mark_len s in if sp then a + space_len (drop a s) else a)"

definition wordy :: "string \<Rightarrow> bool" where
  "wordy w = (w \<noteq> [] \<and> letter (hd w) \<and> letter (last w) \<and> map lower w = w)"

definition spoken_pat :: "string \<Rightarrow> bool \<Rightarrow> regex" where
  "spoken_pat w sp = cat ([Bound, Str w, Bound] @ tail sp)"

section \<open>Notions for the placeholder tokens\<close>

text \<open>
  The position \<open>i\<close> of a text as the matcher sees it, and a list of rules applied to a
  text that follows a given character.
\<close>

definition at_pos :: "string \<Rightarrow> nat \<Rightarrow> mstate" where
  "at_pos s i = start (if i = 0 then None else Some (s ! (i - 1))) (drop i s)"

definition sub_all_from :: "char option \<Rightarrow> (regex \<times> piece list) list \<Rightarrow> string \<Rightarrow> string" where
  "sub_all_from p rules s =
     foldl (\<lambda>temp (pattern, replacement). re_sub_from pattern replacement p temp) s rules"

definition inert :: "regex \<Rightarrow> string \<Rightarrow> bool" where
  "inert r T = ((\<forall>p u v m. m \<in> set (run r (start p (u @ T @ v))) \<longrightarrow>
        0 < used m \<and> used m \<le> length u \<and> m = advance (used m) (start p (u @ T @ v))) \<and>
     (\<forall>c s. isword c \<longrightarrow> run r (start (Some c) s) = []))"

text \<open>
  Whether an occurrence of \<open>old\<close> could begin inside \<open>t\<close>, whatever text follows
  \<open>t\<close>: some non-empty end of \<open>t\<close> agrees with the beginning of \<open>old\<close>.
\<close>

fun clash :: "string \<Rightarrow> string \<Rightarrow> bool" where
  "clash old [] = False"
| "clash old (a # t) =
     (take (min (length old) (Suc (length t))) (a # t) =
      take (min (length old) (Suc (length t))) old \<or> clash old t)"

section \<open>Marked texts\<close>

text \<open>
  The three phases on a marked text. A marked text is made of characters and of marks
  \<open>P k\<close>, one for each placeholder token that a rule of the protect phase has put in;
  \<open>plain\<close> writes each mark as its token, which gives the text that the program holds.
  \<open>marked_sub\<close> is \<^verbatim>\<open>re.sub\<close> with a replacement that may contain marks: it looks for
  the pattern in the plain text, copies a mark that it meets, and steps over the
  characters of a match.
\<close>

datatype sym = C char | P nat

definition token :: "nat \<Rightarrow> string" where
  "token k = fst (PLACEHOLDERS ! k)"

definition words :: "nat \<Rightarrow> string" where
  "words k = snd (PLACEHOLDERS ! k)"

fun plain :: "sym list \<Rightarrow> string" where
  "plain [] = []"
| "plain (C c # ms) = c # plain ms"
| "plain (P k # ms) = token k @ plain ms"

fun marked_sub :: "regex \<Rightarrow> sym list \<Rightarrow> char option \<Rightarrow> sym list \<Rightarrow> sym list" where
  "marked_sub r out p [] = []"
| "marked_sub r out p (P k # ms) = P k # marked_sub r out (Some (last (token k))) ms"
| "marked_sub r out p (C c # ms) =
     (case match_at r False p (plain (C c # ms)) of
        None \<Rightarrow> C c # marked_sub r out (Some c) ms
      | Some m \<Rightarrow> out @ marked_sub r out (prev m) (drop (used m - 1) ms))"

text \<open>
  The protect phase puts the mark \<open>P k\<close> where its rule number \<open>k\<close> matches, and the
  literal-substitute phase puts the characters of its replacement. \<open>render\<close> is what
  the restore phase is to give: the protected words for each mark, and between the
  marks the stretches of characters with the restore phase applied to each.
\<close>

definition marked_protect :: "sym list \<Rightarrow> sym list" where
  "marked_protect ms =
     foldl (\<lambda>temp (k, pattern, replacement). marked_sub pattern [P k] None temp) ms
       (zip [0 ..< length REPLACEMENTS_REAL] REPLACEMENTS_REAL)"

definition marked_substitute :: "sym list \<Rightarrow> sym list" where
  "marked_substitute ms =
     foldl (\<lambda>temp (pattern, replacement).
         marked_sub pattern (map C (expand replacement (start None []))) None temp)
       ms REPLACEMENTS"

fun render_from :: "string \<Rightarrow> sym list \<Rightarrow> string" where
  "render_from u [] = restore u"
| "render_from u (C c # ms) = render_from (u @ [c]) ms"
| "render_from u (P k # ms) = restore u @ words k @ render_from [] ms"

definition render :: "sym list \<Rightarrow> string" where
  "render ms = render_from [] ms"

fun marks :: "sym list \<Rightarrow> nat list" where
  "marks [] = []"
| "marks (C c # ms) = marks ms"
| "marks (P k # ms) = k # marks ms"

text \<open>
  \<open>guarded q ms\<close>: every mark of \<open>ms\<close> stands at the start of the text, after
  another mark, or after a character that is not a word character; \<open>q\<close> is what
  stands before \<open>ms\<close>.
\<close>

definition good :: "sym option \<Rightarrow> bool" where
  "good q = (case q of None \<Rightarrow> True | Some (P k) \<Rightarrow> True | Some (C c) \<Rightarrow> \<not> isword c)"

fun guarded :: "sym option \<Rightarrow> sym list \<Rightarrow> bool" where
  "guarded q [] = True"
| "guarded q (C c # ms) = guarded (Some (C c)) ms"
| "guarded q (P k # ms) = (good q \<and> guarded (Some (P k)) ms)"

text \<open>
  Notions of the proofs about marked texts: the number of characters before the first
  mark, marks that name an entry of the table, the character that the matcher sees
  before a position, and what the proofs need of a pattern: its matches are not empty,
  stay within the text and keep off every placeholder token.
\<close>

fun chars :: "sym list \<Rightarrow> nat" where
  "chars [] = 0"
| "chars (C c # ms) = Suc (chars ms)"
| "chars (P k # ms) = 0"

definition valid :: "sym list \<Rightarrow> bool" where
  "valid ms = (\<forall>k\<in>set (marks ms). k < length PLACEHOLDERS)"

definition lastc :: "sym option \<Rightarrow> char option" where
  "lastc q = (case q of None \<Rightarrow> None | Some (C c) \<Rightarrow> Some c | Some (P k) \<Rightarrow> Some (last (token k)))"

definition tame :: "regex \<Rightarrow> bool" where
  "tame r = ((\<forall>k<length PLACEHOLDERS. inert r (token k)) \<and>
     (\<forall>p s m. m \<in> set (run r (start p s)) \<longrightarrow> 0 < used m \<and> used m \<le> length s))"

section \<open>The clean-up rules as passes over the text\<close>

text \<open>
  The four clean-up rules that do not need a comma, as passes over the text.
  \<open>ahead Q s\<close>: the first character of \<open>s\<close> after its leading whitespace satisfies \<open>Q\<close>.
  \<open>collapse\<close> drops the repeats of the mark it has just kept, with the whitespace
  before each repeat; \<open>unspace_before\<close> drops the whitespace that runs up to a character
  satisfying \<open>Q\<close>; \<open>unspace_after\<close> drops the whitespace that follows a quote.
\<close>

definition ahead :: "(char \<Rightarrow> bool) \<Rightarrow> string \<Rightarrow> bool" where
  "ahead Q s = (case dropWhile isspace s of [] \<Rightarrow> False | y # _ \<Rightarrow> Q y)"

fun collapse :: "char option \<Rightarrow> string \<Rightarrow> string" where
  "collapse md [] = []"
| "collapse md (x # xs) =
     (if (case md of None \<Rightarrow> False | Some p \<Rightarrow> x = p \<or> (isspace x \<and> ahead (\<lambda>y. y = p) xs))
      then collapse md xs
      else x # collapse (if x \<in> set punct then Some x else None) xs)"

fun unspace_before :: "(char \<Rightarrow> bool) \<Rightarrow> string \<Rightarrow> string" where
  "unspace_before Q [] = []"
| "unspace_before Q (x # xs) =
     (if isspace x \<and> ahead Q xs then unspace_before Q xs else x # unspace_before Q xs)"

fun unspace_after :: "bool \<Rightarrow> string \<Rightarrow> string" where
  "unspace_after q [] = []"
| "unspace_after q (x # xs) =
     (if q \<and> isspace x then unspace_after True xs else x # unspace_after (x = dq) xs)"

definition spaces :: "string \<Rightarrow> nat" where
  "spaces s = length (takeWhile isspace s)"

definition tidy :: "string \<Rightarrow> string" where
  "tidy s = unspace_before (\<lambda>y. y = dq)
     (unspace_after False (unspace_before (\<lambda>y. y \<in> set punct) (collapse None s)))"

text \<open>
  \<open>ok R p s\<close>: no two neighbours in \<open>s\<close>, the character \<open>p\<close> before \<open>s\<close> included, are
  related by \<open>R\<close>. \<open>norep p s\<close>: no mark is followed, after whitespace only, by the same
  mark.
\<close>

fun ok :: "(char \<Rightarrow> char \<Rightarrow> bool) \<Rightarrow> char option \<Rightarrow> string \<Rightarrow> bool" where
  "ok R p [] = True"
| "ok R p (x # xs) = ((case p of None \<Rightarrow> True | Some c \<Rightarrow> \<not> R c x) \<and> ok R (Some x) xs)"

fun norep :: "char option \<Rightarrow> string \<Rightarrow> bool" where
  "norep p [] = True"
| "norep p (x # xs) =
     ((case p of None \<Rightarrow> True | Some c \<Rightarrow> \<not> (c \<in> set punct \<and> ahead (\<lambda>y. y = c) (x # xs))) \<and>
      norep (Some x) xs)"

abbreviation is_mark :: "char \<Rightarrow> bool" where
  "is_mark \<equiv> (\<lambda>y. y \<in> set punct)"

abbreviation is_quote :: "char \<Rightarrow> bool" where
  "is_quote \<equiv> (\<lambda>y. y = dq)"

abbreviation space_mark :: "char \<Rightarrow> char \<Rightarrow> bool" where
  "space_mark \<equiv> (\<lambda>x y. isspace x \<and> y \<in> set punct)"

abbreviation same_mark :: "char \<Rightarrow> char \<Rightarrow> bool" where
  "same_mark \<equiv> (\<lambda>x y. x \<in> set punct \<and> y = x)"

abbreviation quote_space :: "char \<Rightarrow> char \<Rightarrow> bool" where
  "quote_space \<equiv> (\<lambda>x y. x = dq \<and> isspace y)"

abbreviation space_quote :: "char \<Rightarrow> char \<Rightarrow> bool" where
  "space_quote \<equiv> (\<lambda>x y. isspace x \<and> y = dq)"

text \<open>
  \<open>calm B p s\<close>: no character of \<open>s\<close>, the character \<open>p\<close> before \<open>s\<close> included, is
  followed, directly or after whitespace only, by a character that \<open>B\<close> relates to it.
  \<open>comma_clash\<close> relates a comma to a period and to a quote, and a quote to a comma:
  the pairs that the three comma rules of the clean-up rewrite. A text is \<open>quiet\<close> when
  it has no such pair.
\<close>

fun calm :: "(char \<Rightarrow> char \<Rightarrow> bool) \<Rightarrow> char option \<Rightarrow> string \<Rightarrow> bool" where
  "calm B p [] = True"
| "calm B p (x # xs) =
     ((case p of None \<Rightarrow> True | Some c \<Rightarrow> \<not> ahead (B c) (x # xs)) \<and> calm B (Some x) xs)"

definition comma_clash :: "char \<Rightarrow> char \<Rightarrow> bool" where
  "comma_clash c y =
     ((c = CHR '','' \<and> (y = CHR ''.'' \<or> y = dq)) \<or> (c = dq \<and> y = CHR '',''))"

definition quiet :: "string \<Rightarrow> bool" where
  "quiet s = calm comma_clash None s"

section \<open>Worked transcripts\<close>

lemma strip_example: "strip '' comma '' = ''comma''"
  by code_simp

lemma normalize_example: "normalize ''comma'' = '', ''"
  by code_simp

text \<open>
  C1 (as the code has it). For the raw transcript
  \<^verbatim>\<open>she said inverted comma hi there inverted comma\<close> the whole pipeline,
  \<^verbatim>\<open>clean_transcript\<close> and then the clean-up substitutions, gives the words with a
  quote character on each side of \<^verbatim>\<open>hi there\<close> and no whitespace on either side of
  either quote: the clean-up removes the whitespace before every quote, so no space is
  left between \<^verbatim>\<open>said\<close> and the opening quote.
\<close>

theorem C1_quotes_lose_both_spaces:
  "normalize ''she said inverted comma hi there inverted comma'' =
     ''she said'' @ [dq] @ ''hi there'' @ [dq]"
  by code_simp

text \<open>
  The result that C1 states, with a space between \<^verbatim>\<open>said\<close> and the opening quote,
  is not what the pipeline returns.
\<close>

theorem C1_space_before_quote_counterexample:
  "normalize ''she said inverted comma hi there inverted comma'' \<noteq>
     ''she said '' @ [dq] @ ''hi there'' @ [dq]"
  by code_simp

text \<open>
  C2 (as the code has it). For the raw transcript
  \<^verbatim>\<open>hello comma comma world full stop full stop\<close> the whole pipeline gives
  \<^verbatim>\<open>hello, world. \<close>: the doubled comma and the doubled full stop are each one mark,
  the whitespace before each mark is gone, and one space follows the final period,
  the one that the replacement of \<^verbatim>\<open>full stop\<close> ends with.
\<close>

theorem C2_collapsed_with_trailing_space:
  "normalize ''hello comma comma world full stop full stop'' = ''hello, world. ''"
  by code_simp

text \<open>The result that C2 states, with nothing after the final period, is not returned.\<close>

theorem C2_nothing_after_period_counterexample:
  "normalize ''hello comma comma world full stop full stop'' \<noteq> ''hello, world.''"
  by code_simp

text \<open>
  C3. The whole pipeline turns \<^verbatim>\<open>actual comma\<close> into the word \<^verbatim>\<open>comma\<close> followed by a
  space, with no comma character in it, and the bare word \<^verbatim>\<open>comma\<close> into a comma
  followed by a space.
\<close>

theorem C3_protected_phrase_round_trip:
  "normalize ''actual comma'' = ''comma '' \<and>
   CHR '','' \<notin> set (normalize ''actual comma'') \<and>
   normalize ''comma'' = '', ''"
  by code_simp

section \<open>The controller\<close>




lemma uncaught_on_press [simp]: "uncaught (on_press k st) = uncaught st"
  by (simp add: on_press_def start_recording_def print_def)

lemma uncaught_callback [simp]: "uncaught (callback indata status st) = uncaught st"
  by (simp add: callback_def print_def Let_def split: option.splits)



text \<open>
  C7. A release of the hotkey while recording with no chunk appended prints
  \<^verbatim>\<open>Transcribing...\<close> and \<^verbatim>\<open>No audio recorded\<close>, sends no request to the service, types
  nothing, changes nothing else, and leaves the controller idle: the next press of the
  hotkey starts recording with an empty buffer. The concatenation is only reached with
  a buffer that is not empty.
\<close>

theorem C7_no_audio_recorded:
  assumes "recording st" and "audio_data st = []"
  shows "on_release w KEY st =
           st\<lparr>recording := False,
              printed := printed st @ [''Transcribing...'', ''No audio recorded'']\<rparr> \<and>
         requests (on_release w KEY st) = requests st \<and>
         typed (on_release w KEY st) = typed st \<and>
         recording (on_press KEY (on_release w KEY st)) \<and>
         audio_data (on_press KEY (on_release w KEY st)) = []"
  using assms
  by (simp add: on_release_def on_press_def stop_recording_and_process_def start_recording_def
        print_def Let_def)

theorem C7_no_audio_recorded_witness:
  "printed (run_events (\<lambda>n a. Raise_Exception ''unused'') [Press KEY, Release KEY]
      (initial :: nat state)) = [''Listening...'', ''Transcribing...'', ''No audio recorded''] \<and>
   requests (run_events (\<lambda>n a. Raise_Exception ''unused'') [Press KEY, Release KEY]
      (initial :: nat state)) = [] \<and>
   typed (run_events (\<lambda>n a. Raise_Exception ''unused'') [Press KEY, Release KEY]
      (initial :: nat state)) = []"
  using C7_no_audio_recorded [of "on_press KEY (initial :: nat state)"
      "\<lambda>n a. Raise_Exception ''unused''"]
  by (simp add: run_events_def initial_def on_press_def start_recording_def print_def)

text \<open>
  C8 (as the code has it). A session that is being recorded, with audio in the buffer
  and the listener running, is ended by a release of the hotkey. When the request of
  the session fails, with an \<^verbatim>\<open>OpenAIError\<close> or with any other exception, the cause is
  printed after \<^verbatim>\<open>Transcribing...\<close>, nothing is typed, exactly one request has been sent,
  the controller is idle and no exception has left the handler; the next press of the
  hotkey starts a fresh session with an empty buffer, and when that session records a
  chunk and its request returns a transcript that is not blank, the listener, which
  has gone through the failure, types its text. When the request returns and the
  typing raises, the exception is caught in the same way: it is printed, the
  controller is idle, what had been typed before the exception stays typed, and the
  listener goes on with the next event. When an exception is raised before the \<^verbatim>\<open>try\<close>
  statement, nothing catches it in the processing: after \<^verbatim>\<open>Transcribing...\<close> it leaves
  the handler with no request sent and nothing typed, and the listener stops there,
  whatever events follow.
\<close>

theorem C8_failure_inside_try_is_recovered:
  assumes rec: "recording st" and audio: "audio_data st \<noteq> []"
    and alive: "uncaught st = None"
    and st1: "st1 = on_release w KEY st"
    and st2: "st2 = on_release w KEY (callback chunk None (on_press KEY st1))"
  shows "(failure_line (w (length (requests st)) (concat (audio_data st))) = Some line \<longrightarrow>
           printed st1 = printed st @ [''Transcribing...'', line] \<and>
           typed st1 = typed st \<and>
           requests st1 = requests st @ [concat (audio_data st)] \<and>
           \<not> recording st1 \<and> uncaught st1 = None \<and>
           recording (on_press KEY st1) \<and> audio_data (on_press KEY st1) = [] \<and>
           (w (Suc (length (requests st))) chunk = Transcript raw \<longrightarrow> strip raw \<noteq> [] \<longrightarrow>
              listen w st [Release KEY, Press KEY, Frames chunk None, Release KEY] = st2 \<and>
              typed st2 = typed st @ [normalize (strip raw) @ '' ''] \<and>
              \<not> recording st2 \<and> uncaught st2 = None)) \<and>
         (w (length (requests st)) (concat (audio_data st)) = Type_raises text n e \<longrightarrow>
            strip text \<noteq> [] \<longrightarrow>
           printed st1 = printed st @ [''Transcribing...'', ''Error: '' @ e] \<and>
           typed st1 = typed st @ [take n (normalize (strip text) @ '' '')] \<and>
           requests st1 = requests st @ [concat (audio_data st)] \<and>
           \<not> recording st1 \<and> uncaught st1 = None \<and>
           listen w st (Release KEY # evs) = listen w st1 evs) \<and>
         (w (length (requests st)) (concat (audio_data st)) = Raise_before_try x \<longrightarrow>
           printed st1 = printed st @ [''Transcribing...''] \<and>
           typed st1 = typed st \<and> requests st1 = requests st \<and>
           \<not> recording st1 \<and> uncaught st1 = Some x \<and>
           listen w st (Release KEY # evs) = st1)"
proof (intro conjI impI)
  assume fail: "failure_line (w (length (requests st)) (concat (audio_data st))) = Some line"
  show a1: "printed st1 = printed st @ [''Transcribing...'', line]"
    and a2: "typed st1 = typed st"
    and a3: "requests st1 = requests st @ [concat (audio_data st)]"
    and a4: "\<not> recording st1" and a5: "uncaught st1 = None"
    using rec audio alive fail unfolding st1
    by (auto simp: on_release_def stop_recording_and_process_def print_def Let_def
          failure_line_def split: outcome.splits)
  show b1: "recording (on_press KEY st1)" and b2: "audio_data (on_press KEY st1) = []"
    using a4 by (simp_all add: on_press_def start_recording_def print_def)
  have b: "requests (on_press KEY st1) = requests st1" "typed (on_press KEY st1) = typed st1"
    "uncaught (on_press KEY st1) = None"
    using a4 a5 by (simp_all add: on_press_def start_recording_def print_def)
  assume ok: "w (Suc (length (requests st))) chunk = Transcript raw"
    and nonempty: "strip raw \<noteq> []"
  show c1: "typed st2 = typed st @ [normalize (strip raw) @ '' '']"
    and c2: "\<not> recording st2" and c3: "uncaught st2 = None"
    using a2 a3 b b1 b2 ok nonempty unfolding st2
    by (simp_all add: on_release_def stop_recording_and_process_def print_def Let_def
          callback_def normalize_def)
  have "uncaught (callback chunk None (on_press KEY st1)) = None"
    using a5 by simp
  then show "listen w st [Release KEY, Press KEY, Frames chunk None, Release KEY] = st2"
    using a5 b c3 unfolding st2 st1 by (simp add: Let_def)
next
  assume raises: "w (length (requests st)) (concat (audio_data st)) = Type_raises text n e"
    and nonempty: "strip text \<noteq> []"
  show "printed st1 = printed st @ [''Transcribing...'', ''Error: '' @ e]"
    and "typed st1 = typed st @ [take n (normalize (strip text) @ '' '')]"
    and "requests st1 = requests st @ [concat (audio_data st)]"
    and "\<not> recording st1" and d: "uncaught st1 = None"
    using rec audio alive raises nonempty unfolding st1
    by (simp_all add: on_release_def stop_recording_and_process_def print_def Let_def
          normalize_def)
  show "listen w st (Release KEY # evs) = listen w st1 evs"
    using d unfolding st1 by (simp add: Let_def)
next
  assume before: "w (length (requests st)) (concat (audio_data st)) = Raise_before_try x"
  show "printed st1 = printed st @ [''Transcribing...'']"
    and "typed st1 = typed st" and "requests st1 = requests st"
    and "\<not> recording st1" and d: "uncaught st1 = Some x"
    using rec audio before unfolding st1
    by (simp_all add: on_release_def stop_recording_and_process_def print_def Let_def)
  show "listen w st (Release KEY # evs) = st1"
    using d unfolding st1 by (simp add: Let_def)
qed

theorem C8_failure_inside_try_is_recovered_witness:
  "printed (listen flaky initial [Press KEY, Frames [1, 2] None, Release KEY,
       Press KEY, Frames [3] None, Release KEY]) =
     [''Listening...'', ''Transcribing...'', ''OpenAI error: Connection error.'',
      ''Listening...'', ''Transcribing...''] \<and>
   typed (listen flaky initial [Press KEY, Frames [1, 2] None, Release KEY]) = [] \<and>
   typed (listen flaky initial [Press KEY, Frames [1, 2] None, Release KEY,
       Press KEY, Frames [3] None, Release KEY]) = ['',  ''] \<and>
   printed (listen untypable initial [Press KEY, Frames [1, 2] None, Release KEY]) =
     [''Listening...'', ''Transcribing...'', ''Error: no key for the character''] \<and>
   typed (listen untypable initial [Press KEY, Frames [1, 2] None, Release KEY,
       Press KEY, Frames [3] None, Release KEY]) = ['','', '',  ''] \<and>
   uncaught (listen unwritable initial [Press KEY, Frames [1, 2] None, Release KEY,
       Press KEY, Frames [3] None, Release KEY]) = Some ''Permission denied''"
  using
    C8_failure_inside_try_is_recovered
      [of "callback [1, 2] None (on_press KEY initial)"
        "on_release flaky KEY (callback [1, 2] None (on_press KEY initial))" flaky
        "on_release flaky KEY (callback [3] None (on_press KEY
           (on_release flaky KEY (callback [1, 2] None (on_press KEY initial)))))"
        "[3]" "''OpenAI error: Connection error.''" "'' comma ''" "''x''" 0 "''x''" "[]"
        "''x''"]
    C8_failure_inside_try_is_recovered
      [of "callback [1, 2] None (on_press KEY initial)"
        "on_release untypable KEY (callback [1, 2] None (on_press KEY initial))" untypable
        "on_release untypable KEY (callback [3] None (on_press KEY
           (on_release untypable KEY (callback [1, 2] None (on_press KEY initial)))))"
        "[3]" "''x''" "''x''" "'' comma ''" 1 "''no key for the character''"
        "[Press KEY, Frames [3] None, Release KEY]" "''x''"]
    C8_failure_inside_try_is_recovered
      [of "callback [1, 2] None (on_press KEY initial)"
        "on_release unwritable KEY (callback [1, 2] None (on_press KEY initial))" unwritable
        "on_release unwritable KEY (callback [3] None (on_press KEY
           (on_release unwritable KEY (callback [1, 2] None (on_press KEY initial)))))"
        "[3]" "''x''" "''x''" "''x''" 0 "''x''"
        "[Press KEY, Frames [3] None, Release KEY]" "''Permission denied''"]
  apply (simp add: strip_example normalize_example)
  apply (simp add: initial_def on_press_def callback_def start_recording_def
      print_def flaky_def untypable_def unwritable_def failure_line_def KEY_def on_release_def
      stop_recording_and_process_def Let_def strip_example normalize_example
      normalize_def[symmetric])
  done

text \<open>
  What C8 says of every exception raised during the processing does not hold of an
  exception raised before the \<^verbatim>\<open>try\<close> statement. When the temporary file of a session
  cannot be written, the exception leaves \<^verbatim>\<open>on_release\<close>; the listener stops and \<^verbatim>\<open>main\<close>
  prints the exception and returns: the press and the release that follow start no
  session and nothing is typed, although the later session alone is served.
\<close>

theorem C8_uncaught_before_try_counterexample:
  "uncaught (on_release unwritable KEY (callback [1, 2] None (on_press KEY initial))) =
     Some ''Permission denied'' \<and>
   printed (main ''whisper-1'' unwritable [Press KEY, Frames [1, 2] None, Release KEY,
       Press KEY, Frames [3] None, Release KEY] False) =
     banner ''whisper-1'' @ [''Listening...'', ''Transcribing...'', ''Error: Permission denied''] \<and>
   typed (main ''whisper-1'' unwritable [Press KEY, Frames [1, 2] None, Release KEY,
       Press KEY, Frames [3] None, Release KEY] False) = [] \<and>
   requests (main ''whisper-1'' unwritable [Press KEY, Frames [1, 2] None, Release KEY,
       Press KEY, Frames [3] None, Release KEY] False) = [] \<and>
   typed (main ''whisper-1'' unwritable [Press KEY, Frames [3] None, Release KEY] False) =
     ['',  '']"
  by (simp add: main_def initial_def on_press_def callback_def start_recording_def print_def
        unwritable_def KEY_def on_release_def stop_recording_and_process_def Let_def
        strip_example normalize_example normalize_def[symmetric])



section \<open>The literal-substitute phase against the regular expressions\<close>

subsection \<open>Characters\<close>
lemma of_char_lower:
  "(of_char (lower c) :: nat) =
     (if (65 \<le> (of_char c :: nat) \<and> (of_char c :: nat) \<le> 90) \<or>
         (192 \<le> (of_char c :: nat) \<and> (of_char c :: nat) \<le> 214) \<or>
         (216 \<le> (of_char c :: nat) \<and> (of_char c :: nat) \<le> 222)
      then of_char c + 32 else of_char c)"
  unfolding lower_def Let_def by auto

lemma lower_eq_iff: "lower c = d \<longleftrightarrow> (of_char (lower c) :: nat) = of_char d"
  by simp

lemma lower_mark: "lower c \<in> set '',.!? '' \<longleftrightarrow> c \<in> set '',.!? ''"
  apply (simp add: lower_eq_iff[of c] of_char_lower)
  apply (auto simp: of_char_eq_iff[where 'a=nat, symmetric] simp del: of_char_eq_iff)
  done

lemma lower_letter_isword: "letter (lower c) \<Longrightarrow> isword c"
  unfolding letter_def isword_def Let_def of_char_lower
  by (auto split: if_splits)

subsection \<open>Positions and sequences\<close>
lemma used_advance [simp]: "used (advance n m) = used m + n"
  by (simp add: advance_def)
lemma rest_advance [simp]: "rest (advance n m) = drop n (rest m)"
  by (simp add: advance_def)
lemma grp_advance [simp]: "grp (advance n m) = grp m"
  by (simp add: advance_def)
lemma prev_advance: "prev (advance n m) = (if n = 0 then prev m else Some (rest m ! (n - 1)))"
  by (simp add: advance_def)
lemma advance_0 [simp]: "advance 0 m = m"
  by (simp add: advance_def)
lemma advance_advance: "a + b \<le> length (rest m) \<Longrightarrow> advance a (advance b m) = advance (a + b) m"
  by (cases a; cases b) (simp_all add: advance_def add.commute)

lemma start_sel [simp]: "prev (start p s) = p" "rest (start p s) = s" "used (start p s) = 0"
  "grp (start p s) = None"
  by (simp_all add: start_def)

lemma looking_at_append:
  "looking_at (a @ b) m \<longleftrightarrow> looking_at a m \<and> looking_at b (advance (length a) m)"
  by (auto simp: looking_at_def take_add)

lemma run_cat_Nil [simp]: "run (cat []) m = [m]"
  by (simp add: cat_def)
lemma run_cat_Cons: "run (cat (r # rs)) m = concat (map (run (cat rs)) (run r m))"
  by (simp add: cat_def)
lemma run_cat_Bound: "run (cat (Bound # rs)) m = (if at_boundary m then run (cat rs) m else [])"
  by (simp add: run_cat_Cons)
lemma run_cat_Str:
  "run (cat (Str w # rs)) m = (if looking_at w m then run (cat rs) (advance (length w) m) else [])"
  by (simp add: run_cat_Cons)
lemma run_cat_Opt: "run (cat (Opt r # rs)) m = run (cat (r # rs)) m @ run (cat rs) m"
  by (simp add: run_cat_Cons)
lemma run_cat_Set: "run (cat (Set cs # rs)) m = (case rest m of [] \<Rightarrow> []
     | c # _ \<Rightarrow> if lower c \<in> set (map lower cs) then run (cat rs) (advance 1 m) else [])"
  by (simp add: run_cat_Cons split: list.splits)

lemma match_at_head:
  "match_at r False p s = (case run r (start p s) of [] \<Rightarrow> None | m # _ \<Rightarrow> Some m)"
  by (simp add: match_at_def split: list.splits)

lemma space_len_le: "space_len s \<le> length s" "space_len s \<le> 1"
  by (cases s; simp add: space_len_def)+
lemma mark_len_le: "mark_len s \<le> length s" "mark_len s \<le> 1"
  by (cases s; simp add: mark_len_def)+

subsection \<open>The spoken-word rules\<close>

lemma mark_len_iff: "mark_len s = Suc 0 \<longleftrightarrow> (\<exists>c cs. s = c # cs \<and> c \<in> set '',.?'')"
  by (cases s) (auto simp: mark_len_def)
lemma space_len_iff: "space_len s = Suc 0 \<longleftrightarrow> (\<exists>cs. s = CHR '' '' # cs)"
  by (cases s) (auto simp: space_len_def)
lemma mark_len_cases: "mark_len s = 0 \<or> mark_len s = 1"
  by (cases s) (auto simp: mark_len_def)
lemma space_len_cases: "space_len s = 0 \<or> space_len s = 1"
  by (cases s) (auto simp: space_len_def)

lemma lower_consts [simp]:
  "lower CHR '','' = CHR '',''" "lower CHR ''.'' = CHR ''.''" "lower CHR ''?'' = CHR ''?''"
  "lower CHR ''!'' = CHR ''!''" "lower CHR '' '' = CHR '' ''" "lower dq = dq"
  by (simp_all add: lower_def dq_def)

lemma lower_in_marks [simp]:
  "lower c = CHR '','' \<longleftrightarrow> c = CHR '',''" "lower c = CHR ''.'' \<longleftrightarrow> c = CHR ''.''"
  "lower c = CHR ''?'' \<longleftrightarrow> c = CHR ''?''" "lower c = CHR ''!'' \<longleftrightarrow> c = CHR ''!''"
  "lower c = CHR '' '' \<longleftrightarrow> c = CHR '' ''" "lower c = dq \<longleftrightarrow> c = dq"
  by (simp_all add: lower_eq_iff[of c] of_char_lower dq_def)
     (auto simp: of_char_eq_iff[where 'a=nat, symmetric] simp del: of_char_eq_iff)

lemma looking_at_space: "looking_at '' '' m \<longleftrightarrow> space_len (rest m) = 1"
  by (cases "rest m") (auto simp: looking_at_def space_len_def)

lemma run_opt_space:
  "run (cat [Opt (Str '' '')]) m = (if space_len (rest m) = 1 then [advance 1 m] else []) @ [m]"
  by (simp add: run_cat_Opt run_cat_Str looking_at_space)

lemma run_opt_mark:
  "run (cat (Opt (Set '',.?'') # rs)) m =
     (if mark_len (rest m) = 1 then run (cat rs) (advance 1 m) else []) @ run (cat rs) m"
  by (cases "rest m") (auto simp: run_cat_Opt run_cat_Set mark_len_def)

lemma run_tail_head:
  "\<exists>ms. run (cat (tail sp)) m = advance (tail_len sp (rest m)) m # ms"
  using mark_len_cases[of "rest m"] space_len_cases[of "rest m"]
    space_len_cases[of "drop 1 (rest m)"] mark_len_le(1)[of "rest m"]
    space_len_le(1)[of "drop 1 (rest m)"]
  by (auto simp: tail_def trail_def tail_len_def run_opt_mark run_opt_space advance_advance)

lemma run_tail_set:
  assumes "m' \<in> set (run (cat (tail sp)) m)"
  shows "\<exists>k. m' = advance k m \<and> k \<le> length (rest m) \<and> k \<le> 2 \<and>
           (\<forall>j<k. rest m ! j \<in> set '',.? '')"
proof -
  have k0: "\<exists>k. m = advance k m \<and> k \<le> length (rest m) \<and> k \<le> 2 \<and>
           (\<forall>j<k. rest m ! j \<in> set '',.? '')"
    by (rule exI[of _ 0]) simp
  have k1: "mark_len (rest m) = 1 \<or> space_len (rest m) = 1 \<Longrightarrow>
       \<exists>k. advance 1 m = advance k m \<and> k \<le> length (rest m) \<and> k \<le> 2 \<and>
           (\<forall>j<k. rest m ! j \<in> set '',.? '')"
    by (rule exI[of _ 1]) (auto simp: mark_len_iff space_len_iff)
  have k2: "mark_len (rest m) = 1 \<Longrightarrow> space_len (drop 1 (rest m)) = 1 \<Longrightarrow>
       \<exists>k. advance 2 m = advance k m \<and> k \<le> length (rest m) \<and> k \<le> 2 \<and>
           (\<forall>j<k. rest m ! j \<in> set '',.? '')"
    by (rule exI[of _ 2]) (auto simp: mark_len_iff space_len_iff less_Suc_eq numeral_2_eq_2)
  have two: "advance 1 (advance 1 m) = advance 2 m" if "space_len (drop 1 (rest m)) = 1"
    using that space_len_le(1)[of "drop 1 (rest m)"]
    by (simp add: advance_advance numeral_2_eq_2)
  show ?thesis
    using assms k0 k1 k2 two
    by (auto simp: tail_def trail_def run_opt_mark run_opt_space split: if_splits)
qed

lemma looking_at_nth:
  assumes "looking_at w m" and "i < length w"
  shows "lower (rest m ! i) = lower (w ! i)"
proof -
  have eq: "map lower (take (length w) (rest m)) = map lower w"
    and len: "length w \<le> length (rest m)"
    using assms by (simp_all add: looking_at_def)
  have "map lower (take (length w) (rest m)) ! i = lower (rest m ! i)"
    using assms(2) len by simp
  moreover have "map lower w ! i = lower (w ! i)"
    using assms(2) by simp
  ultimately show ?thesis
    using eq by simp
qed

lemma wordy_looking_at:
  assumes "wordy w" and "looking_at w m"
  shows "isword (hd (rest m))" and "isword (rest m ! (length w - 1))" and "rest m \<noteq> []"
proof -
  have w: "w \<noteq> []" "letter (hd w)" "letter (last w)" "map lower w = w"
    using assms(1) by (simp_all add: wordy_def)
  have len: "0 < length w" "length w \<le> length (rest m)"
    using w(1) assms(2) by (simp_all add: looking_at_def)
  then show ne: "rest m \<noteq> []" by auto
  have l: "lower (w ! i) = w ! i" if "i < length w" for i
    using w(4) that by (metis nth_map)
  have "lower (rest m ! 0) = w ! 0"
    using looking_at_nth[OF assms(2), of 0] len l[of 0] by simp
  then have "letter (lower (rest m ! 0))"
    using w(1,2) by (simp add: hd_conv_nth)
  then show "isword (hd (rest m))"
    using ne by (simp add: hd_conv_nth lower_letter_isword)
  have "lower (rest m ! (length w - 1)) = w ! (length w - 1)"
    using looking_at_nth[OF assms(2), of "length w - 1"] len l[of "length w - 1"] by simp
  then have "letter (lower (rest m ! (length w - 1)))"
    using w(1,3) by (simp add: last_conv_nth)
  then show "isword (rest m ! (length w - 1))"
    by (rule lower_letter_isword)
qed

lemma spoken_at_iff:
  assumes "wordy w"
  shows "spoken_at w p s \<longleftrightarrow>
    at_boundary (start p s) \<and> looking_at w (start p s) \<and>
    at_boundary (advance (length w) (start p s))"
proof (cases "looking_at w (start p s)")
  case False
  then show ?thesis
    using assms by (auto simp: spoken_at_def looking_at_def wordy_def)
next
  case True
  note facts = wordy_looking_at[OF assms True]
  have w: "w \<noteq> []" "map lower w = w"
    using assms by (simp_all add: wordy_def)
  have a: "at_boundary (start p s) \<longleftrightarrow> no_word_before p"
    using facts(1,3)
    by (cases s; cases p) (auto simp: at_boundary_def no_word_before_def)
  have b: "at_boundary (advance (length w) (start p s)) \<longleftrightarrow> no_word_next (drop (length w) s)"
    using facts(2) w(1)
    by (cases "drop (length w) s") (auto simp: at_boundary_def no_word_next_def prev_advance)
  show ?thesis
    using True a b w by (auto simp: spoken_at_def looking_at_def)
qed

lemma run_spoken_pat:
  assumes "wordy w"
  shows "run (spoken_pat w sp) (start p s) =
    (if spoken_at w p s then run (cat (tail sp)) (advance (length w) (start p s)) else [])"
  unfolding spoken_at_iff[OF assms]
  by (simp add: spoken_pat_def run_cat_Bound run_cat_Str)

lemma tail_len_le: "tail_len sp s \<le> length s"
  using mark_len_le(1)[of s] space_len_le(1)[of "drop (mark_len s) s"]
  by (auto simp: tail_len_def Let_def)

lemma spoken_len_one:
  "spoken_len [w] sp p s =
     (if spoken_at w p s then Some (length w + tail_len sp (drop (length w) s)) else None)"
  by (auto simp: spoken_len_def tail_len_def Let_def add.commute)

lemma spoken_len_two:
  "spoken_len [w, w'] sp p s =
     (case spoken_len [w] sp p s of Some n \<Rightarrow> Some n | None \<Rightarrow> spoken_len [w'] sp p s)"
  by (auto simp: spoken_len_def Let_def)

lemma run_spoken_pat_head:
  assumes "wordy w"
  shows "(case run (spoken_pat w sp) (start p s) of [] \<Rightarrow> None | m # _ \<Rightarrow> Some m) =
     map_option (\<lambda>n. advance n (start p s)) (spoken_len [w] sp p s)"
proof (cases "spoken_at w p s")
  case False
  then show ?thesis by (simp add: run_spoken_pat[OF assms] spoken_len_one)
next
  case True
  then have len: "length w \<le> length s" by (simp add: spoken_at_def)
  obtain ms where ms: "run (cat (tail sp)) (advance (length w) (start p s)) =
      advance (tail_len sp (drop (length w) s)) (advance (length w) (start p s)) # ms"
    using run_tail_head[of sp "advance (length w) (start p s)"] by auto
  have "advance (tail_len sp (drop (length w) s)) (advance (length w) (start p s)) =
      advance (length w + tail_len sp (drop (length w) s)) (start p s)"
    using len tail_len_le[of sp "drop (length w) s"]
    by (simp add: advance_advance add.commute)
  then show ?thesis
    using True ms by (simp add: run_spoken_pat[OF assms] spoken_len_one)
qed

lemma match_spoken_pat:
  assumes "wordy w"
  shows "match_at (spoken_pat w sp) False p s =
     map_option (\<lambda>n. advance n (start p s)) (spoken_len [w] sp p s)"
  by (simp add: match_at_head run_spoken_pat_head[OF assms])

lemma wordy_phrases:
  "wordy ''new line''" "wordy ''newline''" "wordy ''inverted comma''" "wordy ''comma''"
  "wordy ''full stop''"
  by (simp_all add: wordy_def letter_def lower_def)

lemma run_cat_Str_Str: "run (cat (Str a # Str b # rs)) m = run (cat (Str (a @ b) # rs)) m"
proof (cases "looking_at (a @ b) m")
  case True
  then have "length a + length b \<le> length (rest m)"
    by (simp add: looking_at_def)
  then have "advance (length b) (advance (length a) m) = advance (length (a @ b)) m"
    by (simp add: advance_advance add.commute)
  then show ?thesis
    using True by (simp add: run_cat_Str looking_at_append)
next
  case False
  then show ?thesis
    by (auto simp: run_cat_Str looking_at_append)
qed

lemma run_new_line:
  "run (fst (REPLACEMENTS ! 0)) m =
   run (spoken_pat ''new line'' True) m @ run (spoken_pat ''newline'' True) m"
proof -
  have "run (cat (Bound # Str ''new'' # Opt (Str '' '') # Str ''line'' # Bound # trail)) m =
     run (cat (Bound # Str ''new'' # Str '' '' # Str ''line'' # Bound # trail)) m @
     run (cat (Bound # Str ''new'' # Str ''line'' # Bound # trail)) m"
    by (simp add: run_cat_Bound run_cat_Str[of "''new''"] run_cat_Opt)
  also have "\<dots> = run (cat (Bound # Str ''new line'' # Bound # trail)) m @
     run (cat (Bound # Str ''newline'' # Bound # trail)) m"
    by (simp add: run_cat_Bound run_cat_Str_Str)
  finally show ?thesis
    by (simp add: REPLACEMENTS_def spoken_pat_def tail_def)
qed

lemma match_new_line:
  "match_at (fst (REPLACEMENTS ! 0)) False p s =
     map_option (\<lambda>n. advance n (start p s)) (spoken_len [''new line'', ''newline''] True p s)"
proof -
  have "match_at (fst (REPLACEMENTS ! 0)) False p s =
     (case match_at (spoken_pat ''new line'' True) False p s of
        Some m \<Rightarrow> Some m | None \<Rightarrow> match_at (spoken_pat ''newline'' True) False p s)"
    by (simp add: match_at_head run_new_line split: list.splits)
  then show ?thesis
    by (simp add: match_spoken_pat wordy_phrases spoken_len_two[of "''new line''"]
          split: option.splits)
qed

lemma spoken_len_bounds:
  assumes "[] \<notin> set ws" and "spoken_len ws sp p s = Some n"
  shows "0 < n" and "n \<le> length s"
proof -
  obtain w tl where f: "filter (\<lambda>w. spoken_at w p s) ws = w # tl"
    using assms(2) by (cases "filter (\<lambda>w. spoken_at w p s) ws") (simp_all add: spoken_len_def)
  then have "w \<in> set (filter (\<lambda>w. spoken_at w p s) ws)"
    by simp
  then have w: "w \<in> set ws" "spoken_at w p s"
    by simp_all
  have n: "n = length w + tail_len sp (drop (length w) s)"
    using assms(2) f by (auto simp: spoken_len_def tail_len_def Let_def add.commute)
  from w assms(1) have "0 < length w" by auto
  then show "0 < n" using n by simp
  from w(2) have "length w \<le> length s" by (simp add: spoken_at_def)
  then show "n \<le> length s"
    using n tail_len_le[of sp "drop (length w) s"] by simp
qed

lemma re_sub_spoken:
  assumes m: "\<And>p s. match_at r False p s =
      map_option (\<lambda>n. advance n (start p s)) (spoken_len ws sp p s)"
    and ws: "[] \<notin> set ws"
  shows "re_sub_from r [Text out] p s = spoken_sub ws sp out p s"
proof (induction s arbitrary: p rule: measure_induct_rule[where f = length])
  case (less s)
  show ?case
  proof (cases s)
    case Nil
    have "spoken_len ws sp p [] = None"
    proof (cases "spoken_len ws sp p []")
      case (Some n)
      then have "0 < n" "n \<le> 0"
        using spoken_len_bounds[OF ws Some] by simp_all
      then show ?thesis by simp
    qed simp
    then show ?thesis using Nil by (simp add: m)
  next
    case (Cons c cs)
    show ?thesis
    proof (cases "spoken_len ws sp p (c # cs)")
      case None
      then show ?thesis using Cons less[of cs "Some c"] by (simp add: m)
    next
      case (Some n)
      then have "0 < n" using spoken_len_bounds(1)[OF ws] by blast
      then show ?thesis
        using Some Cons less[of "drop (n - 1) cs"] by (simp add: m prev_advance)
    qed
  qed
qed

text \<open>
  C5 (as the code has it). In the literal-substitute phase each of the spoken words is
  matched with case folded, where no word character stands before or after it. For
  \<^verbatim>\<open>new line\<close> (also written \<^verbatim>\<open>newline\<close>), \<^verbatim>\<open>comma\<close> and \<^verbatim>\<open>full stop\<close> the match takes
  an optional comma, period or question mark after the word and then an optional single
  space; for \<^verbatim>\<open>inverted comma\<close> it takes only the optional mark, and a space after it
  stays in the text. The four rules run in this order and put a line break, a quote
  character, a comma with a space, and a period with a space.
\<close>

theorem C5_spoken_words_replaced:
  "literal_substitute s =
     spoken_sub [''full stop''] True ''. '' None
      (spoken_sub [''comma''] True '', '' None
        (spoken_sub [''inverted comma''] False [dq] None
          (spoken_sub [''new line'', ''newline''] True [nl] None s)))"
proof -
  have r0: "re_sub (fst (REPLACEMENTS ! 0)) [Text [nl]] t =
      spoken_sub [''new line'', ''newline''] True [nl] None t" for t
    unfolding re_sub_def by (rule re_sub_spoken) (simp_all add: match_new_line)
  have r1: "re_sub (spoken_pat ''inverted comma'' False) [Text [dq]] t =
      spoken_sub [''inverted comma''] False [dq] None t" for t
    unfolding re_sub_def by (rule re_sub_spoken) (simp_all add: match_spoken_pat wordy_phrases)
  have r2: "re_sub (spoken_pat ''comma'' True) [Text '', ''] t =
      spoken_sub [''comma''] True '', '' None t" for t
    unfolding re_sub_def by (rule re_sub_spoken) (simp_all add: match_spoken_pat wordy_phrases)
  have r3: "re_sub (spoken_pat ''full stop'' True) [Text ''. ''] t =
      spoken_sub [''full stop''] True ''. '' None t" for t
    unfolding re_sub_def by (rule re_sub_spoken) (simp_all add: match_spoken_pat wordy_phrases)
  have "literal_substitute s =
     re_sub (spoken_pat ''full stop'' True) [Text ''. '']
      (re_sub (spoken_pat ''comma'' True) [Text '', '']
        (re_sub (spoken_pat ''inverted comma'' False) [Text [dq]]
          (re_sub (fst (REPLACEMENTS ! 0)) [Text [nl]] s)))"
    by (simp add: literal_substitute_def sub_all_def REPLACEMENTS_def spoken_pat_def tail_def)
  then show ?thesis
    by (simp only: r0 r1 r2 r3)
qed

text \<open>
  The reading of C5 in which every one of the four rules takes the optional space
  differs from the code on \<^verbatim>\<open>inverted comma x\<close>: the code leaves the space before \<^verbatim>\<open>x\<close>.
\<close>

theorem C5_inverted_comma_keeps_space_counterexample:
  "literal_substitute ''inverted comma x'' = dq # '' x'' \<and>
   spoken_sub [''full stop''] True ''. '' None
      (spoken_sub [''comma''] True '', '' None
        (spoken_sub [''inverted comma''] True [dq] None
          (spoken_sub [''new line'', ''newline''] True [nl] None ''inverted comma x''))) =
     dq # ''x'' \<and>
   literal_substitute ''inverted comma x'' \<noteq>
   spoken_sub [''full stop''] True ''. '' None
      (spoken_sub [''comma''] True '', '' None
        (spoken_sub [''inverted comma''] True [dq] None
          (spoken_sub [''new line'', ''newline''] True [nl] None ''inverted comma x'')))"
  by code_simp

section \<open>Placeholder tokens\<close>

subsection \<open>Placeholders under the literal-substitute phase\<close>

lemma not_word_marks: "c \<in> set '',.? '' \<Longrightarrow> \<not> isword c"
  by (auto simp: isword_def)

lemma spoken_candidates:
  assumes "wordy w" and "m \<in> set (run (spoken_pat w sp) (start p s))"
  shows "spoken_at w p s \<and> (\<exists>k. m = advance (length w + k) (start p s) \<and>
      length w + k \<le> length s \<and> (\<forall>j<k. s ! (length w + j) \<in> set '',.? ''))"
proof -
  have at: "spoken_at w p s"
    and m: "m \<in> set (run (cat (tail sp)) (advance (length w) (start p s)))"
    using assms(2) by (simp_all add: run_spoken_pat[OF assms(1)] split: if_splits)
  have len: "length w \<le> length s"
    using at by (simp add: spoken_at_def)
  obtain k where k: "m = advance k (advance (length w) (start p s))"
      "k \<le> length s - length w" "\<forall>j<k. drop (length w) s ! j \<in> set '',.? ''"
    using run_tail_set[OF m] by auto
  have "m = advance (length w + k) (start p s)"
    using k(1,2) len by (simp add: advance_advance add.commute)
  moreover have "\<forall>j<k. s ! (length w + j) \<in> set '',.? ''"
    using k(3) len by (simp add: nth_drop)
  ultimately show ?thesis
    using at k(2) len by auto
qed

lemma spoken_pat_inert:
  assumes w: "wordy w" and T: "\<forall>c\<in>set T. isword c"
    and T0: "T \<noteq> []" and us: "CHR ''_'' \<in> set T" "CHR ''_'' \<notin> set w"
  shows "inert (spoken_pat w sp) T"
proof -
  have a: "0 < used m \<and> used m \<le> length u \<and> m = advance (used m) (start p (u @ T @ v))"
    if m: "m \<in> set (run (spoken_pat w sp) (start p (u @ T @ v)))" for p u v m
  proof -
    let ?s = "u @ T @ v"
    obtain k where at: "spoken_at w p ?s" and k: "m = advance (length w + k) (start p ?s)"
      "length w + k \<le> length ?s" "\<forall>j<k. ?s ! (length w + j) \<in> set '',.? ''"
      using spoken_candidates[OF w m] by auto
    have used: "used m = length w + k"
      using k(1) by simp
    have w0: "0 < length w"
      using w by (simp add: wordy_def)
    have inside: "length w \<le> length u"
    proof (rule ccontr)
      assume n: "\<not> length w \<le> length u"
      show False
      proof (cases "length w - length u < length T")
        case True
        then have "drop (length w) ?s = drop (length w - length u) T @ v"
          using n by simp
        moreover have "drop (length w - length u) T =
            T ! (length w - length u) # drop (Suc (length w - length u)) T"
          using True by (simp add: Cons_nth_drop_Suc)
        ultimately have "\<not> no_word_next (drop (length w) ?s)"
          using T True by (simp add: no_word_next_def)
        then show False
          using at by (simp add: spoken_at_def)
      next
        case False
        obtain j where j: "j < length T" "T ! j = CHR ''_''"
          using us(1) by (auto simp: in_set_conv_nth)
        have i: "length u + j < length w"
          using False j(1) n by simp
        define x where "x = u @ T @ v"
        have eq: "map lower (take (length w) x) = w" and le: "length w \<le> length x"
          using at unfolding x_def by (simp_all only: spoken_at_def)
        have "take (length w) x ! (length u + j) = x ! (length u + j)"
          using i by simp
        moreover have "x ! (length u + j) = T ! j"
          unfolding x_def using j(1) by (simp add: nth_append)
        moreover have "length u + j < length (take (length w) x)"
          using i le by simp
        ultimately have "map lower (take (length w) x) ! (length u + j) = lower (T ! j)"
          by (simp only: nth_map)
        moreover have "lower CHR ''_'' = CHR ''_''"
          by (simp add: lower_def)
        ultimately have "w ! (length u + j) = CHR ''_''"
          using j(2) by (simp only: eq)
        then have "CHR ''_'' \<in> set w"
          using i by (metis nth_mem)
        then show False
          using us(2) by simp
      qed
    qed
    have "length w + k \<le> length u"
    proof (rule ccontr)
      assume "\<not> length w + k \<le> length u"
      then have j: "length u - length w < k"
        using inside by simp
      have "?s ! (length w + (length u - length w)) = T ! 0"
        using inside T0 by (simp add: nth_append)
      moreover have "isword (T ! 0)"
        using T T0 by simp
      ultimately show False
        using k(3) j not_word_marks by metis
    qed
    then show ?thesis
      using used w0 k(1) by simp
  qed
  have b: "run (spoken_pat w sp) (start (Some c) s) = []" if "isword c" for c s
    using that by (simp add: run_spoken_pat[OF w] spoken_at_def no_word_before_def)
  show ?thesis
    unfolding inert_def using a b by blast
qed

lemma inert_append:
  assumes "\<And>m. run r m = run a m @ run b m" and "inert a T" and "inert b T"
  shows "inert r T"
  using assms unfolding inert_def by (metis Un_iff append_is_Nil_conv set_append)

lemma inert_rules:
  assumes T: "\<forall>c\<in>set T. isword c" and T0: "T \<noteq> []" and us: "CHR ''_'' \<in> set T"
    and r: "(r, t) \<in> set REPLACEMENTS"
  shows "inert r T"
proof -
  have "inert (fst (REPLACEMENTS ! 0)) T"
    by (rule inert_append[OF run_new_line]; rule spoken_pat_inert)
       (use T T0 us in \<open>simp_all add: wordy_phrases\<close>)
  moreover have "inert (spoken_pat ''inverted comma'' False) T"
    "inert (spoken_pat ''comma'' True) T" "inert (spoken_pat ''full stop'' True) T"
    by (rule spoken_pat_inert; use T T0 us in \<open>simp add: wordy_phrases\<close>)+
  ultimately show ?thesis
    using r by (auto simp: REPLACEMENTS_def spoken_pat_def tail_def)
qed

lemma match_at_in_run: "match_at r False p s = Some m \<Longrightarrow> m \<in> set (run r (start p s))"
  by (simp add: match_at_head split: list.splits)

lemma scan_words:
  assumes "inert r T"
  shows "\<forall>c\<in>set t. isword c \<Longrightarrow> isword c0 \<Longrightarrow>
    re_sub_from r tp (Some c0) (t @ v) = t @ re_sub_from r tp (Some (last (c0 # t))) v"
proof (induction t arbitrary: c0)
  case Nil
  then show ?case by simp
next
  case (Cons a t)
  have "run r (start (Some c0) (a # t @ v)) = []"
    using assms Cons.prems(2) by (simp add: inert_def)
  then have "match_at r False (Some c0) (a # t @ v) = None"
    by (simp add: match_at_head)
  then show ?case
    using Cons.IH[of a] Cons.prems(1) by simp
qed

lemma scan_token:
  assumes "inert r T" and "\<forall>c\<in>set T. isword c" and "T \<noteq> []"
  shows "re_sub_from r tp p (T @ v) = T @ re_sub_from r tp (Some (last T)) v"
proof -
  obtain c t where T: "T = c # t"
    using assms(3) by (cases T) auto
  have "run r (start p (T @ v)) = []"
  proof (cases "run r (start p (T @ v))")
    case (Cons m ms)
    then have "m \<in> set (run r (start p ([] @ T @ v)))" by simp
    then have "0 < used m \<and> used m \<le> length ([] :: string)"
      using assms(1) unfolding inert_def by blast
    then have False by auto
    then show ?thesis ..
  qed simp
  then have "match_at r False p (c # t @ v) = None"
    using T by (simp add: match_at_head)
  then show ?thesis
    using T scan_words[OF assms(1), of t c tp v] assms(2) by simp
qed

lemma scan_prefix:
  assumes "inert r T" and "\<forall>c\<in>set T. isword c" and "T \<noteq> []"
  shows "\<exists>x. re_sub_from r tp p (u @ T @ v) = x @ T @ re_sub_from r tp (Some (last T)) v"
proof (induction u arbitrary: p rule: measure_induct_rule[where f = length])
  case (less u)
  show ?case
  proof (cases u)
    case Nil
    then show ?thesis
      using scan_token[OF assms, of tp p v] by simp
  next
    case (Cons c cs)
    show ?thesis
    proof (cases "match_at r False p (u @ T @ v)")
      case None
      obtain x where "re_sub_from r tp (Some c) (cs @ T @ v) =
          x @ T @ re_sub_from r tp (Some (last T)) v"
        using less[of cs "Some c"] Cons by auto
      then have "re_sub_from r tp p (u @ T @ v) =
          (c # x) @ T @ re_sub_from r tp (Some (last T)) v"
        using None Cons by simp
      then show ?thesis by blast
    next
      case (Some m)
      then have "m \<in> set (run r (start p (u @ T @ v)))"
        by (rule match_at_in_run)
      then have used: "0 < used m" "used m \<le> length u"
        using assms(1) unfolding inert_def by blast+
      then have d: "drop (used m - 1) (cs @ T @ v) = drop (used m - 1) cs @ T @ v"
        using Cons by simp
      obtain x where "re_sub_from r tp (prev m) (drop (used m - 1) cs @ T @ v) =
          x @ T @ re_sub_from r tp (Some (last T)) v"
        using less[of "drop (used m - 1) cs" "prev m"] Cons
        by (auto simp: less_Suc_eq_le)
      then have "re_sub_from r tp p (u @ T @ v) =
          (expand tp m @ x) @ T @ re_sub_from r tp (Some (last T)) v"
        using Some Cons used(1) d by simp
      then show ?thesis by blast
    qed
  qed
qed

lemma sub_all_keeps_token:
  assumes "\<forall>c\<in>set T. isword c" and "T \<noteq> []"
  shows "\<forall>(r, t)\<in>set rules. inert r T \<Longrightarrow>
    \<exists>x. sub_all rules (u @ T @ v) = x @ T @ sub_all_from (Some (last T)) rules v"
proof (induction rules arbitrary: u v)
  case Nil
  then show ?case by (simp add: sub_all_def sub_all_from_def)
next
  case (Cons rule rules)
  obtain r t where rule: "rule = (r, t)" by (cases rule)
  then have "inert r T" using Cons.prems by simp
  then obtain x where x: "re_sub r t (u @ T @ v) = x @ T @ re_sub_from r t (Some (last T)) v"
    using scan_prefix[OF _ assms, of r t None u v] by (auto simp: re_sub_def)
  obtain x' where "sub_all rules (x @ T @ re_sub_from r t (Some (last T)) v) =
      x' @ T @ sub_all_from (Some (last T)) rules (re_sub_from r t (Some (last T)) v)"
    using Cons.IH[of x "re_sub_from r t (Some (last T)) v"] Cons.prems by auto
  then show ?case
    using x rule by (simp add: sub_all_def sub_all_from_def)
qed

lemma no_overlap:
  assumes "inert r T" and T: "\<forall>c\<in>set T. isword c"
    and i: "i \<le> length (u @ T @ v)" and m: "m \<in> set (run r (at_pos (u @ T @ v) i))"
  shows "i + used m \<le> length u \<or> length u + length T \<le> i"
proof -
  let ?s = "u @ T @ v"
  obtain p where p: "at_pos ?s i = start p (drop i ?s)"
    by (simp add: at_pos_def)
  consider "i < length u" | "i = length u" "T \<noteq> []"
    | "length u < i" "i < length u + length T" | "length u + length T \<le> i"
    by (cases T) force+
  then show ?thesis
  proof cases
    case 1
    then have "drop i ?s = drop i u @ T @ v" by simp
    then have "m \<in> set (run r (start p (drop i u @ T @ v)))"
      using m p by simp
    then have "used m \<le> length (drop i u)"
      using assms(1) unfolding inert_def by blast
    then show ?thesis using 1 by simp
  next
    case 2
    then have "drop i ?s = [] @ T @ v" by simp
    then have "m \<in> set (run r (start p ([] @ T @ v)))"
      using m p by simp
    then have "0 < used m \<and> used m \<le> length ([] :: string)"
      using assms(1) unfolding inert_def by blast
    then show ?thesis by auto
  next
    case 3
    then obtain j where j: "i = Suc j" "length u \<le> j" "j - length u < length T"
      by (cases i) auto
    then have "?s ! j = T ! (j - length u)"
      by (simp add: nth_append)
    then have "isword (?s ! j)"
      using T j(3) by simp
    then have "run r (start (Some (?s ! j)) (drop i ?s)) = []"
      using assms(1) unfolding inert_def by blast
    then show ?thesis
      using m j(1) by (simp add: at_pos_def)
  next
    case 4
    then show ?thesis by simp
  qed
qed

subsection \<open>Placeholders under the restore phase\<close>

lemma replace_at:
  assumes "old \<noteq> []"
  shows "replace old new (old @ y) = new @ replace old new y"
proof -
  obtain c cs where old: "old = c # cs"
    using assms by (cases old) auto
  show ?thesis
    unfolding old by simp
qed

lemma take_take_append: "n \<le> length d \<Longrightarrow> n \<le> m \<Longrightarrow> take n (take m (d @ y)) = take n d"
  by (simp add: min_absorb1)

lemma take_append_short: "n \<le> length d \<Longrightarrow> take n (d @ y) = take n d"
  by simp

lemma replace_pass:
  assumes "old \<noteq> []"
  shows "\<not> clash old t \<Longrightarrow> replace old new (t @ y) = t @ replace old new y"
proof (induction t)
  case Nil
  then show ?case by simp
next
  case (Cons a t)
  let ?n = "min (length old) (Suc (length t))"
  have "take (length old) (a # t @ y) \<noteq> old"
  proof
    assume eq: "take (length old) (a # t @ y) = old"
    have "take ?n (take (length old) ((a # t) @ y)) = take ?n (a # t)"
      by (rule take_take_append) simp_all
    then have "take ?n (a # t) = take ?n old"
      using eq by simp
    then show False
      using Cons.prems by simp
  qed
  then show ?case
    using Cons assms by simp
qed

lemma replace_skip_char:
  assumes "old \<noteq> []" and "c \<notin> set old"
  shows "replace old new (x @ c # z) = replace old new x @ c # replace old new z"
proof (induction x rule: measure_induct_rule[where f = length])
  case (less x)
  show ?case
  proof (cases x)
    case Nil
    have "take (length old) (c # z) \<noteq> old"
      using assms by (cases old) auto
    then show ?thesis
      using Nil assms(1) by simp
  next
    case (Cons a x')
    show ?thesis
    proof (cases "take (length old) (a # x') = old")
      case True
      have "length (take (length old) (a # x')) = length old"
        using True by simp
      then have len: "length old \<le> Suc (length x')"
        by simp
      then have "take (length old) ((a # x') @ c # z) = take (length old) (a # x')"
        by (intro take_append_short) simp
      then have "take (length old) (a # x' @ c # z) = old"
        using True by simp
      moreover have "drop (length old - 1) (x' @ c # z) = drop (length old - 1) x' @ c # z"
        using len by simp
      ultimately show ?thesis
        using True Cons assms(1) less[of "drop (length old - 1) x'"] by simp
    next
      case False
      have "take (length old) (a # x' @ c # z) \<noteq> old"
      proof
        assume eq: "take (length old) (a # x' @ c # z) = old"
        have "\<not> length old \<le> Suc (length x')"
        proof
          assume "length old \<le> Suc (length x')"
          then have "take (length old) ((a # x') @ c # z) = take (length old) (a # x')"
            by (intro take_append_short) simp
          then show False using eq False by simp
        qed
        then have i: "Suc (length x') < length old"
          by simp
        let ?l = "take (length old) ((a # x') @ c # z)"
        have "?l ! length (a # x') = ((a # x') @ c # z) ! length (a # x')"
          using i by (intro nth_take) simp
        then have "?l ! length (a # x') = c"
          by (simp only: nth_append_length)
        moreover have "length (a # x') < length ?l"
          using i by simp
        ultimately have "c \<in> set ?l"
          by (metis nth_mem)
        then show False
          using eq assms(2) by simp
      qed
      then show ?thesis
        using False Cons assms(1) less[of x'] by simp
    qed
  qed
qed

lemma restore_unfold:
  "restore s =
     replace ''FULL_STOP_PLACEHOLDER'' ''full stop ''
      (replace ''COMMA_PLACEHOLDER'' ''comma ''
        (replace ''INVERTED_COMMA_PLACEHOLDER'' ''inverted comma ''
          (replace ''NEW_LINE_PLACEHOLDER'' ''new line '' s)))"
  by (simp add: restore_def PLACEHOLDERS_def)

lemma token_chars:
  assumes "(T, W) \<in> set PLACEHOLDERS"
  shows "\<forall>c\<in>set T. isword c" and "CHR ''_'' \<in> set T" and "T \<noteq> []"
  using assms by (auto simp: PLACEHOLDERS_def isword_def)

lemma restore_new_line: "restore (''NEW_LINE_PLACEHOLDER'' @ y) = ''new line '' @ restore y"
proof -
  have s0: "replace ''NEW_LINE_PLACEHOLDER'' ''new line '' (''NEW_LINE_PLACEHOLDER'' @ z) = ''new line '' @ replace ''NEW_LINE_PLACEHOLDER'' ''new line '' z" for z
    by (rule replace_at) simp
  have s1: "replace ''INVERTED_COMMA_PLACEHOLDER'' ''inverted comma '' (''new line '' @ z) = ''new line '' @ replace ''INVERTED_COMMA_PLACEHOLDER'' ''inverted comma '' z" for z
    by (rule replace_pass) simp_all
  have s2: "replace ''COMMA_PLACEHOLDER'' ''comma '' (''new line '' @ z) = ''new line '' @ replace ''COMMA_PLACEHOLDER'' ''comma '' z" for z
    by (rule replace_pass) simp_all
  have s3: "replace ''FULL_STOP_PLACEHOLDER'' ''full stop '' (''new line '' @ z) = ''new line '' @ replace ''FULL_STOP_PLACEHOLDER'' ''full stop '' z" for z
    by (rule replace_pass) simp_all
  show ?thesis
    unfolding restore_unfold by (simp only: s0 s1 s2 s3)
qed

lemma restore_inverted_comma: "restore (''INVERTED_COMMA_PLACEHOLDER'' @ y) = ''inverted comma '' @ restore y"
proof -
  have s0: "replace ''NEW_LINE_PLACEHOLDER'' ''new line '' (''INVERTED_COMMA_PLACEHOLDER'' @ z) = ''INVERTED_COMMA_PLACEHOLDER'' @ replace ''NEW_LINE_PLACEHOLDER'' ''new line '' z" for z
    by (rule replace_pass) simp_all
  have s1: "replace ''INVERTED_COMMA_PLACEHOLDER'' ''inverted comma '' (''INVERTED_COMMA_PLACEHOLDER'' @ z) = ''inverted comma '' @ replace ''INVERTED_COMMA_PLACEHOLDER'' ''inverted comma '' z" for z
    by (rule replace_at) simp
  have s2: "replace ''COMMA_PLACEHOLDER'' ''comma '' (''inverted comma '' @ z) = ''inverted comma '' @ replace ''COMMA_PLACEHOLDER'' ''comma '' z" for z
    by (rule replace_pass) simp_all
  have s3: "replace ''FULL_STOP_PLACEHOLDER'' ''full stop '' (''inverted comma '' @ z) = ''inverted comma '' @ replace ''FULL_STOP_PLACEHOLDER'' ''full stop '' z" for z
    by (rule replace_pass) simp_all
  show ?thesis
    unfolding restore_unfold by (simp only: s0 s1 s2 s3)
qed

lemma restore_comma: "restore (''COMMA_PLACEHOLDER'' @ y) = ''comma '' @ restore y"
proof -
  have s0: "replace ''NEW_LINE_PLACEHOLDER'' ''new line '' (''COMMA_PLACEHOLDER'' @ z) = ''COMMA_PLACEHOLDER'' @ replace ''NEW_LINE_PLACEHOLDER'' ''new line '' z" for z
    by (rule replace_pass) simp_all
  have s1: "replace ''INVERTED_COMMA_PLACEHOLDER'' ''inverted comma '' (''COMMA_PLACEHOLDER'' @ z) = ''COMMA_PLACEHOLDER'' @ replace ''INVERTED_COMMA_PLACEHOLDER'' ''inverted comma '' z" for z
    by (rule replace_pass) simp_all
  have s2: "replace ''COMMA_PLACEHOLDER'' ''comma '' (''COMMA_PLACEHOLDER'' @ z) = ''comma '' @ replace ''COMMA_PLACEHOLDER'' ''comma '' z" for z
    by (rule replace_at) simp
  have s3: "replace ''FULL_STOP_PLACEHOLDER'' ''full stop '' (''comma '' @ z) = ''comma '' @ replace ''FULL_STOP_PLACEHOLDER'' ''full stop '' z" for z
    by (rule replace_pass) simp_all
  show ?thesis
    unfolding restore_unfold by (simp only: s0 s1 s2 s3)
qed

lemma restore_full_stop: "restore (''FULL_STOP_PLACEHOLDER'' @ y) = ''full stop '' @ restore y"
proof -
  have s0: "replace ''NEW_LINE_PLACEHOLDER'' ''new line '' (''FULL_STOP_PLACEHOLDER'' @ z) = ''FULL_STOP_PLACEHOLDER'' @ replace ''NEW_LINE_PLACEHOLDER'' ''new line '' z" for z
    by (rule replace_pass) simp_all
  have s1: "replace ''INVERTED_COMMA_PLACEHOLDER'' ''inverted comma '' (''FULL_STOP_PLACEHOLDER'' @ z) = ''FULL_STOP_PLACEHOLDER'' @ replace ''INVERTED_COMMA_PLACEHOLDER'' ''inverted comma '' z" for z
    by (rule replace_pass) simp_all
  have s2: "replace ''COMMA_PLACEHOLDER'' ''comma '' (''FULL_STOP_PLACEHOLDER'' @ z) = ''FULL_STOP_PLACEHOLDER'' @ replace ''COMMA_PLACEHOLDER'' ''comma '' z" for z
    by (rule replace_pass) simp_all
  have s3: "replace ''FULL_STOP_PLACEHOLDER'' ''full stop '' (''FULL_STOP_PLACEHOLDER'' @ z) = ''full stop '' @ replace ''FULL_STOP_PLACEHOLDER'' ''full stop '' z" for z
    by (rule replace_at) simp
  show ?thesis
    unfolding restore_unfold by (simp only: s0 s1 s2 s3)
qed

lemma restore_token:
  assumes "(T, W) \<in> set PLACEHOLDERS"
  shows "restore (T @ y) = W @ restore y"
  using assms restore_new_line restore_inverted_comma restore_comma restore_full_stop
  by (auto simp: PLACEHOLDERS_def)

lemma token_words:
  "\<forall>d\<in>set ''NEW_LINE_PLACEHOLDER''. isword d"
  "\<forall>d\<in>set ''INVERTED_COMMA_PLACEHOLDER''. isword d"
  "\<forall>d\<in>set ''COMMA_PLACEHOLDER''. isword d"
  "\<forall>d\<in>set ''FULL_STOP_PLACEHOLDER''. isword d"
  by (simp_all add: isword_def)

lemma restore_split:
  assumes "\<not> isword c"
  shows "restore (x @ c # z) = restore x @ c # restore z"
proof -
  have n: "c \<notin> set ''NEW_LINE_PLACEHOLDER''" "c \<notin> set ''INVERTED_COMMA_PLACEHOLDER''"
    "c \<notin> set ''COMMA_PLACEHOLDER''" "c \<notin> set ''FULL_STOP_PLACEHOLDER''"
    using assms token_words by blast+
  have r: "replace old new (x' @ c # z') = replace old new x' @ c # replace old new z'"
    if "old \<in> {''NEW_LINE_PLACEHOLDER'', ''INVERTED_COMMA_PLACEHOLDER'',
        ''COMMA_PLACEHOLDER'', ''FULL_STOP_PLACEHOLDER''}" for old new x' z'
    using that n by (intro replace_skip_char) auto
  show ?thesis
    unfolding restore_unfold by (simp add: r)
qed

lemma restore_after_prefix:
  assumes "(T, W) \<in> set PLACEHOLDERS" and "x = [] \<or> \<not> isword (last x)"
  shows "restore (x @ T @ y) = restore x @ W @ restore y"
proof (cases "x = []")
  case True
  then show ?thesis
    using restore_token[OF assms(1)] by (simp add: restore_unfold)
next
  case False
  then have x: "x = butlast x @ [last x]" and c: "\<not> isword (last x)"
    using assms(2) by simp_all
  have "restore (butlast x @ last x # (T @ y)) = restore (butlast x) @ last x # restore (T @ y)"
    using c by (rule restore_split)
  moreover have "restore (butlast x @ last x # []) = restore (butlast x) @ last x # restore []"
    using c by (rule restore_split)
  moreover have "restore [] = []"
    by (simp add: restore_unfold)
  ultimately show ?thesis
    using x restore_token[OF assms(1), of y]
    by (metis append_Cons append_Nil append_assoc)
qed

subsection \<open>Marked texts\<close>

lemma token_in: "k < length PLACEHOLDERS \<Longrightarrow> (token k, words k) \<in> set PLACEHOLDERS"
  unfolding token_def words_def by (metis nth_mem prod.collapse)

lemma plain_append: "plain (a @ b) = plain a @ plain b"
  by (induction a rule: plain.induct) simp_all

lemma plain_map_C [simp]: "plain (map C s) = s"
  by (induction s) simp_all

lemma marks_append: "marks (a @ b) = marks a @ marks b"
  by (induction a rule: marks.induct) simp_all

lemma marks_map_C [simp]: "marks (map C s) = []"
  by (induction s) simp_all

lemma plain_lead:
  "\<exists>u. length u = chars ms \<and>
     (plain ms = u \<or> (\<exists>k rest. k \<in> set (marks ms) \<and> plain ms = u @ token k @ plain rest))"
proof (induction ms rule: chars.induct)
  case 1
  then show ?case by simp
next
  case (2 c ms)
  then obtain u where u: "length u = chars ms"
    "plain ms = u \<or> (\<exists>k rest. k \<in> set (marks ms) \<and> plain ms = u @ token k @ plain rest)"
    by blast
  have "length (c # u) = chars (C c # ms)"
    using u(1) by simp
  moreover have "plain (C c # ms) = c # u \<or>
      (\<exists>k rest. k \<in> set (marks (C c # ms)) \<and> plain (C c # ms) = (c # u) @ token k @ plain rest)"
    using u(2) by auto
  ultimately show ?case by blast
next
  case (3 k ms)
  have "plain (P k # ms) = [] @ token k @ plain ms" "k \<in> set (marks (P k # ms))"
    by simp_all
  then show ?case
    by (metis chars.simps(3) list.size(3))
qed

lemma plain_drop: "n \<le> chars ms \<Longrightarrow> plain (drop n ms) = drop n (plain ms)"
  by (induction ms arbitrary: n rule: chars.induct) (auto simp: drop_Cons split: nat.splits)

lemma marks_drop: "n \<le> chars ms \<Longrightarrow> marks (drop n ms) = marks ms"
  by (induction ms arbitrary: n rule: chars.induct) (auto simp: drop_Cons split: nat.splits)

lemma marks_drop_subset: "set (marks (drop n ms)) \<subseteq> set (marks ms)"
  by (induction ms arbitrary: n rule: marks.induct) (auto simp: drop_Cons split: nat.splits)

lemma valid_drop: "valid ms \<Longrightarrow> valid (drop n ms)"
  unfolding valid_def using marks_drop_subset by blast

lemma valid_simps [simp]:
  "valid []" "valid (C c # ms) = valid ms" "valid (P k # ms) = (k < length PLACEHOLDERS \<and> valid ms)"
  by (simp_all add: valid_def)

lemma match_bound:
  assumes "tame r" and "valid ms" and "match_at r False p (plain ms) = Some m"
  shows "0 < used m \<and> used m \<le> chars ms"
proof -
  have m: "m \<in> set (run r (start p (plain ms)))"
    using assms(3) by (rule match_at_in_run)
  obtain u where u: "length u = chars ms"
    "plain ms = u \<or> (\<exists>k rest. k \<in> set (marks ms) \<and> plain ms = u @ token k @ plain rest)"
    using plain_lead by blast
  from u(2) show ?thesis
  proof
    assume "plain ms = u"
    then show ?thesis
      using assms(1) m u(1) unfolding tame_def by metis
  next
    assume "\<exists>k rest. k \<in> set (marks ms) \<and> plain ms = u @ token k @ plain rest"
    then obtain k rest where k: "k \<in> set (marks ms)" "plain ms = u @ token k @ plain rest"
      by blast
    then have "inert r (token k)"
      using assms(1,2) unfolding tame_def valid_def by blast
    then show ?thesis
      using m k(2) u(1) unfolding inert_def by metis
  qed
qed

lemma marked_sub_plain:
  assumes "tame r"
  shows "valid ms \<Longrightarrow>
    plain (marked_sub r out p ms) = re_sub_from r [Text (plain out)] p (plain ms)"
proof (induction ms arbitrary: p rule: measure_induct_rule[where f = length])
  case (less ms)
  show ?case
  proof (cases ms)
    case Nil
    have "match_at r False p [] = None"
    proof (cases "match_at r False p []")
      case (Some m)
      then have "match_at r False p (plain []) = Some m"
        by simp
      then have "0 < used m \<and> used m \<le> chars []"
        by (rule match_bound[OF assms valid_simps(1)])
      then have False by auto
      then show ?thesis ..
    qed simp
    then show ?thesis
      using Nil by simp
  next
    case (Cons a ms')
    show ?thesis
    proof (cases a)
      case (P k)
      then have k: "k < length PLACEHOLDERS" and v: "valid ms'"
        using less.prems Cons by simp_all
      note tok = token_chars[OF token_in[OF k]]
      have "inert r (token k)"
        using assms k unfolding tame_def by blast
      then have "re_sub_from r [Text (plain out)] p (token k @ plain ms') =
          token k @ re_sub_from r [Text (plain out)] (Some (last (token k))) (plain ms')"
        using tok(1,3) by (rule scan_token)
      then show ?thesis
        using less.IH[of ms' "Some (last (token k))"] v Cons P by simp
    next
      case (C c)
      then have v: "valid ms'"
        using less.prems Cons by simp
      show ?thesis
      proof (cases "match_at r False p (plain (C c # ms'))")
        case None
        then show ?thesis
          using less.IH[of ms' "Some c"] v Cons C by simp
      next
        case (Some m)
        then have b: "0 < used m" "used m \<le> chars (C c # ms')"
          using match_bound[OF assms, of "C c # ms'" p m] v by simp_all
        then have d: "plain (drop (used m - 1) ms') = drop (used m - 1) (plain ms')"
          by (intro plain_drop) simp
        have "plain (marked_sub r out (prev m) (drop (used m - 1) ms')) =
            re_sub_from r [Text (plain out)] (prev m) (plain (drop (used m - 1) ms'))"
          using valid_drop[OF v] by (intro less.IH) (simp_all add: Cons)
        then show ?thesis
          using Some b(1) d Cons C by (simp add: plain_append)
      qed
    qed
  qed
qed

lemma marked_sub_marks:
  assumes "tame r"
  shows "valid ms \<Longrightarrow> marks (marked_sub r (map C x) p ms) = marks ms"
proof (induction ms arbitrary: p rule: measure_induct_rule[where f = length])
  case (less ms)
  show ?case
  proof (cases ms)
    case Nil
    then show ?thesis by simp
  next
    case (Cons a ms')
    show ?thesis
    proof (cases a)
      case (P k)
      then show ?thesis
        using less.IH[of ms'] less.prems Cons by simp
    next
      case (C c)
      then have v: "valid ms'"
        using less.prems Cons by simp
      show ?thesis
      proof (cases "match_at r False p (plain (C c # ms'))")
        case None
        then show ?thesis
          using less.IH[of ms' "Some c"] v Cons C by simp
      next
        case (Some m)
        then have b: "0 < used m" "used m \<le> chars (C c # ms')"
          using match_bound[OF assms, of "C c # ms'" p m] v by simp_all
        then have d: "marks (drop (used m - 1) ms') = marks ms'"
          by (intro marks_drop) simp
        have "marks (marked_sub r (map C x) (prev m) (drop (used m - 1) ms')) =
            marks (drop (used m - 1) ms')"
          using valid_drop[OF v] by (intro less.IH) (simp_all add: Cons)
        then show ?thesis
          using Some d Cons C by (simp add: marks_append)
      qed
    qed
  qed
qed

lemma marked_sub_valid:
  "valid ms \<Longrightarrow> valid out \<Longrightarrow> valid (marked_sub r out p ms)"
proof (induction ms arbitrary: p rule: measure_induct_rule[where f = length])
  case (less ms)
  show ?case
  proof (cases ms)
    case Nil
    then show ?thesis by simp
  next
    case (Cons a ms')
    show ?thesis
    proof (cases a)
      case (P k)
      then show ?thesis
        using less.IH[of ms'] less.prems Cons by simp
    next
      case (C c)
      then have v: "valid ms'"
        using less.prems Cons by simp
      show ?thesis
      proof (cases "match_at r False p (plain (C c # ms'))")
        case None
        then show ?thesis
          using less.IH[of ms' "Some c"] v less.prems(2) Cons C by simp
      next
        case (Some m)
        have "valid (marked_sub r out (prev m) (drop (used m - 1) ms'))"
          using valid_drop[OF v] less.prems(2) by (intro less.IH) (simp_all add: Cons)
        then show ?thesis
          using Some less.prems(2) Cons C by (auto simp: valid_def marks_append)
      qed
    qed
  qed
qed

subsection \<open>Where the marks stand\<close>

lemma guarded_append:
  "guarded q (a @ b) = (guarded q a \<and> guarded (if a = [] then q else Some (last a)) b)"
  by (induction q a rule: guarded.induct) auto

lemma guarded_map_C [simp]: "guarded q (map C x)"
  by (induction x arbitrary: q) simp_all

lemma guarded_drop: "guarded q ms \<Longrightarrow> \<exists>q'. guarded q' (drop n ms)"
proof (induction ms arbitrary: q n)
  case Nil
  then show ?case by simp
next
  case (Cons a ms)
  show ?case
  proof (cases n)
    case 0
    then show ?thesis using Cons.prems by auto
  next
    case (Suc n')
    have "guarded (Some a) ms"
      using Cons.prems by (cases a) simp_all
    then show ?thesis
      using Cons.IH[of "Some a" n'] Suc by simp
  qed
qed

lemma marked_sub_guarded:
  assumes nw: "\<And>p s m. match_at r False p s = Some m \<Longrightarrow> no_word_before p"
    and out: "out \<noteq> []" "good (Some (last out))" "\<And>q. good q \<Longrightarrow> guarded q out"
  shows "guarded qi ms \<Longrightarrow> good q \<or> (q = qi \<and> p = lastc qi) \<Longrightarrow>
    guarded q (marked_sub r out p ms)"
proof (induction ms arbitrary: qi q p rule: measure_induct_rule[where f = length])
  case (less ms)
  show ?case
  proof (cases ms)
    case Nil
    then show ?thesis by simp
  next
    case (Cons a ms')
    show ?thesis
    proof (cases a)
      case (P k)
      have g: "good q"
        using less.prems Cons P by auto
      have "guarded (Some (P k)) ms'"
        using less.prems(1) Cons P by simp
      then have "guarded (Some (P k)) (marked_sub r out (Some (last (token k))) ms')"
        by (rule less.IH[rotated]) (simp_all add: Cons lastc_def)
      then show ?thesis
        using g Cons P by simp
    next
      case (C c)
      have g': "guarded (Some (C c)) ms'"
        using less.prems(1) Cons C by simp
      show ?thesis
      proof (cases "match_at r False p (plain (C c # ms'))")
        case None
        have "guarded (Some (C c)) (marked_sub r out (Some c) ms')"
          using g' by (rule less.IH[rotated]) (simp_all add: Cons lastc_def)
        then show ?thesis
          using None Cons C by simp
      next
        case (Some m)
        then have n: "no_word_before p"
          by (rule nw)
        have g: "good q"
        proof (rule ccontr)
          assume b: "\<not> good q"
          then have "q = qi" "p = lastc qi"
            using less.prems(2) by auto
          then show False
            using b n by (auto simp: good_def lastc_def no_word_before_def
                split: option.splits sym.splits)
        qed
        obtain q' where "guarded q' (drop (used m - 1) ms')"
          using guarded_drop[OF g'] by blast
        then have "guarded (Some (last out)) (marked_sub r out (prev m) (drop (used m - 1) ms'))"
          by (rule less.IH[rotated]) (simp_all add: Cons out(2))
        then show ?thesis
          using Some Cons C out(1) out(3)[OF g] by (simp add: guarded_append)
      qed
    qed
  qed
qed

lemma restore_Nil [simp]: "restore [] = []"
  by (simp add: restore_unfold)

lemma restore_plain:
  "valid ms \<Longrightarrow> guarded q ms \<Longrightarrow> (u \<noteq> [] \<longrightarrow> q = Some (C (last u))) \<Longrightarrow>
   restore (u @ plain ms) = render_from u ms"
proof (induction ms arbitrary: u q)
  case Nil
  then show ?case by simp
next
  case (Cons a ms)
  show ?case
  proof (cases a)
    case (C c)
    have "restore ((u @ [c]) @ plain ms) = render_from (u @ [c]) ms"
      using Cons.prems by (intro Cons.IH[where q = "Some (C c)"]) (simp_all add: C)
    then show ?thesis
      using C by simp
  next
    case (P k)
    then have k: "k < length PLACEHOLDERS" and v: "valid ms" and g: "good q"
      and g': "guarded (Some (P k)) ms"
      using Cons.prems by simp_all
    have "u = [] \<or> \<not> isword (last u)"
      using g Cons.prems(3) by (auto simp: good_def)
    then have "restore (u @ token k @ plain ms) = restore u @ words k @ restore (plain ms)"
      by (rule restore_after_prefix[OF token_in[OF k]])
    moreover have "restore ([] @ plain ms) = render_from [] ms"
      using v g' by (rule Cons.IH) simp
    ultimately show ?thesis
      using P by simp
  qed
qed

subsection \<open>The patterns of the two phases\<close>

lemma tame_spoken:
  assumes "wordy w" and "CHR ''_'' \<notin> set w"
  shows "tame (spoken_pat w sp)"
proof -
  have "inert (spoken_pat w sp) (token k)" if "k < length PLACEHOLDERS" for k
    using token_chars[OF token_in[OF that]] assms by (intro spoken_pat_inert) simp_all
  moreover have "0 < used m \<and> used m \<le> length s"
    if m: "m \<in> set (run (spoken_pat w sp) (start p s))" for p s m
  proof -
    obtain k where "m = advance (length w + k) (start p s)" "length w + k \<le> length s"
      using spoken_candidates[OF assms(1) m] by blast
    then show ?thesis
      using assms(1) by (simp add: wordy_def)
  qed
  ultimately show ?thesis
    unfolding tame_def by blast
qed

lemma tame_append:
  assumes "\<And>m. run r m = run a m @ run b m" and "tame a" and "tame b"
  shows "tame r"
proof -
  have "inert r (token k)" if "k < length PLACEHOLDERS" for k
    using assms that unfolding tame_def by (intro inert_append[OF assms(1)]) blast+
  moreover have "0 < used m \<and> used m \<le> length s" if "m \<in> set (run r (start p s))" for p s m
    using assms that unfolding tame_def by (metis Un_iff set_append)
  ultimately show ?thesis
    unfolding tame_def by blast
qed

lemma tame_no_word_before:
  assumes "tame r" and "match_at r False p s = Some m"
  shows "no_word_before p"
proof (rule ccontr)
  assume "\<not> no_word_before p"
  then obtain c where c: "p = Some c" "isword c"
    by (auto simp: no_word_before_def split: option.splits)
  have "inert r (token 0)"
    using assms(1) unfolding tame_def by (simp add: PLACEHOLDERS_def)
  then have "run r (start (Some c) s) = []"
    using c(2) unfolding inert_def by blast
  then show False
    using assms(2) c(1) by (simp add: match_at_head)
qed

lemma run_two_spellings:
  "run (cat (Bound # Str a # Opt (Str '' '') # Str b # Bound # trail)) m =
   run (spoken_pat (a @ '' '' @ b) True) m @ run (spoken_pat (a @ b) True) m"
proof -
  have "run (cat (Bound # Str a # Opt (Str '' '') # Str b # Bound # trail)) m =
     run (cat (Bound # Str a # Str '' '' # Str b # Bound # trail)) m @
     run (cat (Bound # Str a # Str b # Bound # trail)) m"
    by (simp add: run_cat_Bound run_cat_Str[of a] run_cat_Opt)
  also have "\<dots> = run (cat (Bound # Str (a @ '' '' @ b) # Bound # trail)) m @
     run (cat (Bound # Str (a @ b) # Bound # trail)) m"
    by (simp only: run_cat_Bound run_cat_Str_Str append_assoc)
  finally show ?thesis
    by (simp add: spoken_pat_def tail_def)
qed

lemma wordy_actual:
  "wordy ''actual new line''" "wordy ''actual newline''" "wordy ''actual inverted comma''"
  "wordy ''actual comma''" "wordy ''actual full stop''"
  by (simp_all add: wordy_def letter_def lower_def)

lemma tame_REPLACEMENTS_REAL:
  assumes "(r, t) \<in> set REPLACEMENTS_REAL"
  shows "tame r"
proof -
  have "tame (cat (Bound # Str ''actual new'' # Opt (Str '' '') # Str ''line'' # Bound # trail))"
    by (rule tame_append[OF run_two_spellings]; rule tame_spoken)
       (simp_all add: wordy_actual)
  moreover have "tame (spoken_pat ''actual inverted comma'' True)"
    "tame (spoken_pat ''actual comma'' True)" "tame (spoken_pat ''actual full stop'' True)"
    by (rule tame_spoken; simp add: wordy_actual)+
  ultimately show ?thesis
    using assms by (auto simp: REPLACEMENTS_REAL_def spoken_pat_def tail_def)
qed

lemma tame_REPLACEMENTS:
  assumes "(r, t) \<in> set REPLACEMENTS"
  shows "tame r"
proof -
  have "tame (cat (Bound # Str ''new'' # Opt (Str '' '') # Str ''line'' # Bound # trail))"
    by (rule tame_append[OF run_two_spellings]; rule tame_spoken)
       (simp_all add: wordy_phrases)
  moreover have "tame (spoken_pat ''inverted comma'' False)"
    "tame (spoken_pat ''comma'' True)" "tame (spoken_pat ''full stop'' True)"
    by (rule tame_spoken; simp add: wordy_phrases)+
  ultimately show ?thesis
    using assms by (auto simp: REPLACEMENTS_def spoken_pat_def tail_def)
qed

subsection \<open>The phases on marked texts\<close>

lemma protect_step:
  assumes "tame r" and "k < length PLACEHOLDERS" and "valid ms" and "guarded None ms"
  shows "valid (marked_sub r [P k] None ms)"
    and "guarded None (marked_sub r [P k] None ms)"
    and "plain (marked_sub r [P k] None ms) = re_sub r [Text (token k)] (plain ms)"
proof -
  show "valid (marked_sub r [P k] None ms)"
    using assms(2,3) by (intro marked_sub_valid) simp_all
  show "guarded None (marked_sub r [P k] None ms)"
    by (rule marked_sub_guarded[OF tame_no_word_before[OF assms(1)], where qi = None])
       (use assms(4) in \<open>simp_all add: good_def\<close>)
  show "plain (marked_sub r [P k] None ms) = re_sub r [Text (token k)] (plain ms)"
    using marked_sub_plain[OF assms(1,3), of "[P k]" None] by (simp add: re_sub_def)
qed

lemma substitute_step:
  assumes "tame r" and "x \<noteq> []" and "\<not> isword (last x)" and "valid ms"
    and "guarded None ms"
  shows "valid (marked_sub r (map C x) None ms)"
    and "guarded None (marked_sub r (map C x) None ms)"
    and "plain (marked_sub r (map C x) None ms) = re_sub r [Text x] (plain ms)"
    and "marks (marked_sub r (map C x) None ms) = marks ms"
proof -
  show "valid (marked_sub r (map C x) None ms)"
    using assms(4) by (intro marked_sub_valid) (simp_all add: valid_def)
  show "guarded None (marked_sub r (map C x) None ms)"
    by (rule marked_sub_guarded[OF tame_no_word_before[OF assms(1)], where qi = None])
       (use assms(2,3,5) in \<open>simp_all add: good_def last_map\<close>)
  show "plain (marked_sub r (map C x) None ms) = re_sub r [Text x] (plain ms)"
    using marked_sub_plain[OF assms(1,4), of "map C x" None] by (simp add: re_sub_def)
  show "marks (marked_sub r (map C x) None ms) = marks ms"
    using assms(1,4) by (rule marked_sub_marks)
qed

lemma marked_protect_plain:
  "valid (marked_protect (map C s))" "guarded None (marked_protect (map C s))"
  "plain (marked_protect (map C s)) = protect s"
proof -
  define r0 where "r0 = fst (REPLACEMENTS_REAL ! 0)"
  define r1 where "r1 = fst (REPLACEMENTS_REAL ! 1)"
  define r2 where "r2 = fst (REPLACEMENTS_REAL ! 2)"
  define r3 where "r3 = fst (REPLACEMENTS_REAL ! 3)"
  have R: "REPLACEMENTS_REAL = [(r0, [Text (token 0)]), (r1, [Text (token 1)]),
      (r2, [Text (token 2)]), (r3, [Text (token 3)])]"
    by (simp add: r0_def r1_def r2_def r3_def REPLACEMENTS_REAL_def token_def PLACEHOLDERS_def)
  have t: "tame r0" "tame r1" "tame r2" "tame r3"
    by (rule tame_REPLACEMENTS_REAL[where t = "[Text (token 0)]"], simp add: R,
        rule tame_REPLACEMENTS_REAL[where t = "[Text (token 1)]"], simp add: R,
        rule tame_REPLACEMENTS_REAL[where t = "[Text (token 2)]"], simp add: R,
        rule tame_REPLACEMENTS_REAL[where t = "[Text (token 3)]"], simp add: R)
  have k: "0 < length PLACEHOLDERS" "1 < length PLACEHOLDERS" "2 < length PLACEHOLDERS"
    "3 < length PLACEHOLDERS"
    by (simp_all add: PLACEHOLDERS_def)
  let ?m0 = "map C s"
  let ?m1 = "marked_sub r0 [P 0] None ?m0"
  let ?m2 = "marked_sub r1 [P 1] None ?m1"
  let ?m3 = "marked_sub r2 [P 2] None ?m2"
  let ?m4 = "marked_sub r3 [P 3] None ?m3"
  have m0: "valid ?m0" "guarded None ?m0" "plain ?m0 = s"
    by (simp_all add: valid_def)
  note m1 = protect_step[OF t(1) k(1) m0(1,2)]
  note m2 = protect_step[OF t(2) k(2) m1(1,2)]
  note m3 = protect_step[OF t(3) k(3) m2(1,2)]
  note m4 = protect_step[OF t(4) k(4) m3(1,2)]
  have e: "marked_protect ?m0 = ?m4"
    unfolding marked_protect_def R by (simp add: upt_rec numeral_2_eq_2 numeral_3_eq_3)
  have p: "protect s = re_sub r3 [Text (token 3)] (re_sub r2 [Text (token 2)]
      (re_sub r1 [Text (token 1)] (re_sub r0 [Text (token 0)] s)))"
    unfolding protect_def sub_all_def R by simp
  show "valid (marked_protect (map C s))" "guarded None (marked_protect (map C s))"
    unfolding e by (rule m4)+
  show "plain (marked_protect (map C s)) = protect s"
    unfolding e p by (simp only: m4(3) m3(3) m2(3) m1(3) m0(3))
qed

lemma marked_substitute_plain:
  assumes "valid ms" and "guarded None ms"
  shows "valid (marked_substitute ms)" "guarded None (marked_substitute ms)"
    "plain (marked_substitute ms) = literal_substitute (plain ms)"
    "marks (marked_substitute ms) = marks ms"
proof -
  define r0 where "r0 = fst (REPLACEMENTS ! 0)"
  define r1 where "r1 = fst (REPLACEMENTS ! 1)"
  define r2 where "r2 = fst (REPLACEMENTS ! 2)"
  define r3 where "r3 = fst (REPLACEMENTS ! 3)"
  have R: "REPLACEMENTS = [(r0, [Text [nl]]), (r1, [Text [dq]]),
      (r2, [Text '', '']), (r3, [Text ''. ''])]"
    by (simp add: r0_def r1_def r2_def r3_def REPLACEMENTS_def)
  have t: "tame r0" "tame r1" "tame r2" "tame r3"
    by (rule tame_REPLACEMENTS[where t = "[Text [nl]]"], simp add: R,
        rule tame_REPLACEMENTS[where t = "[Text [dq]]"], simp add: R,
        rule tame_REPLACEMENTS[where t = "[Text '', '']"], simp add: R,
        rule tame_REPLACEMENTS[where t = "[Text ''. '']"], simp add: R)
  have x: "\<not> isword (last [nl])" "\<not> isword (last [dq])" "\<not> isword (last '', '')"
    "\<not> isword (last ''. '')"
    by (simp_all add: isword_def nl_def dq_def)
  let ?m1 = "marked_sub r0 (map C [nl]) None ms"
  let ?m2 = "marked_sub r1 (map C [dq]) None ?m1"
  let ?m3 = "marked_sub r2 (map C '', '') None ?m2"
  let ?m4 = "marked_sub r3 (map C ''. '') None ?m3"
  have ne: "[nl] \<noteq> []" "[dq] \<noteq> []" "'', '' \<noteq> []" "''. '' \<noteq> []"
    by simp_all
  note m1 = substitute_step[OF t(1) ne(1) x(1) assms]
  note m2 = substitute_step[OF t(2) ne(2) x(2) m1(1,2)]
  note m3 = substitute_step[OF t(3) ne(3) x(3) m2(1,2)]
  note m4 = substitute_step[OF t(4) ne(4) x(4) m3(1,2)]
  have e: "marked_substitute ms = ?m4"
    unfolding marked_substitute_def R by simp
  have p: "literal_substitute (plain ms) = re_sub r3 [Text ''. ''] (re_sub r2 [Text '', '']
      (re_sub r1 [Text [dq]] (re_sub r0 [Text [nl]] (plain ms))))"
    unfolding literal_substitute_def sub_all_def R by simp
  show "valid (marked_substitute ms)" "guarded None (marked_substitute ms)"
    unfolding e by (rule m4)+
  show "plain (marked_substitute ms) = literal_substitute (plain ms)"
    unfolding e p using m1(3) m2(3) m3(3) m4(3) by simp
  show "marks (marked_substitute ms) = marks ms"
    unfolding e using m1(4) m2(4) m3(4) m4(4) by simp
qed


text \<open>
  C10. Whatever text stands around a placeholder token, no way in which one of the four
  patterns of the literal-substitute phase matches, at any position, overlaps the token:
  a match ends before the token or begins after it. So the phase leaves the token in
  place, with the text after it rewritten on its own. For every transcript, then: the
  text that the protect phase returns is the marked text \<open>marked_protect\<close> with each
  mark written as its token, so the marks are the placeholders that the phase has
  inserted; the literal-substitute phase returns a marked text with the same marks in
  the same order, each written as its token; in that text every mark stands at the
  start, after another mark, or after a character that is not a word character, so
  that no token of the table begins before a mark and runs into it; and
  \<^verbatim>\<open>clean_transcript\<close> returns that text with the protected words in the place of each
  mark, and with the restore phase applied to the stretches between the marks.
\<close>

theorem C10_placeholders_survive_and_are_restored:
  assumes "(T, W) \<in> set PLACEHOLDERS"
  shows "(\<forall>(r, t)\<in>set REPLACEMENTS. \<forall>i\<le>length (u @ T @ v).
            \<forall>m\<in>set (run r (at_pos (u @ T @ v) i)).
              i + used m \<le> length u \<or> length u + length T \<le> i) \<and>
         (\<exists>x. literal_substitute (u @ T @ v) =
            x @ T @ sub_all_from (Some (last T)) REPLACEMENTS v) \<and>
         protect s = plain (marked_protect (map C s)) \<and>
         literal_substitute (protect s) =
           plain (marked_substitute (marked_protect (map C s))) \<and>
         marks (marked_substitute (marked_protect (map C s))) =
           marks (marked_protect (map C s)) \<and>
         guarded None (marked_substitute (marked_protect (map C s))) \<and>
         clean_transcript s = render (marked_substitute (marked_protect (map C s)))"
proof -
  note tok = token_chars[OF assms]
  have inert: "inert r T" if "(r, t) \<in> set REPLACEMENTS" for r t
    using inert_rules[OF tok(1,3,2) that] .
  have a: "\<forall>(r, t)\<in>set REPLACEMENTS. \<forall>i\<le>length (u @ T @ v).
            \<forall>m\<in>set (run r (at_pos (u @ T @ v) i)).
              i + used m \<le> length u \<or> length u + length T \<le> i"
    using no_overlap[OF inert tok(1)] by blast
  have b: "\<exists>x. literal_substitute (u @ T @ v) =
            x @ T @ sub_all_from (Some (last T)) REPLACEMENTS v"
    unfolding literal_substitute_def
    by (rule sub_all_keeps_token[OF tok(1,3)]) (use inert in blast)
  note c = marked_protect_plain[of s]
  note d = marked_substitute_plain[OF c(1,2)]
  have "restore ([] @ plain (marked_substitute (marked_protect (map C s)))) =
      render_from [] (marked_substitute (marked_protect (map C s)))"
    using d(1,2) by (rule restore_plain) simp
  then have e: "clean_transcript s = render (marked_substitute (marked_protect (map C s)))"
    by (simp add: clean_transcript_def render_def d(3) c(3))
  show ?thesis
    using a b c(3) d(2,3,4) e by simp
qed

lemma marked_example:
  "sub_all_from (Some CHR ''R'') REPLACEMENTS '' comma'' = '' , ''"
  "plain (marked_protect (map C ''comma actual comma actual new line'')) =
     ''comma COMMA_PLACEHOLDERNEW_LINE_PLACEHOLDER''"
  "marks (marked_protect (map C ''comma actual comma actual new line'')) = [2, 0]"
  "plain (marked_substitute (marked_protect (map C ''comma actual comma actual new line''))) =
     '', COMMA_PLACEHOLDERNEW_LINE_PLACEHOLDER''"
  "render (marked_substitute (marked_protect (map C ''comma actual comma actual new line''))) =
     '', comma new line ''"
  by code_simp+

theorem C10_placeholders_survive_and_are_restored_witness:
  "(''COMMA_PLACEHOLDER'', ''comma '') \<in> set PLACEHOLDERS \<and>
   (\<exists>x. literal_substitute ''say comma COMMA_PLACEHOLDER comma'' =
      x @ ''COMMA_PLACEHOLDER , '') \<and>
   protect ''comma actual comma actual new line'' =
     ''comma COMMA_PLACEHOLDERNEW_LINE_PLACEHOLDER'' \<and>
   literal_substitute (protect ''comma actual comma actual new line'') =
     '', COMMA_PLACEHOLDERNEW_LINE_PLACEHOLDER'' \<and>
   marks (marked_substitute (marked_protect (map C ''comma actual comma actual new line''))) =
     [2, 0] \<and>
   clean_transcript ''comma actual comma actual new line'' = '', comma new line ''"
proof -
  have h: "(''COMMA_PLACEHOLDER'', ''comma '') \<in> set PLACEHOLDERS"
    by (simp add: PLACEHOLDERS_def)
  note t = C10_placeholders_survive_and_are_restored[OF h, of "''say comma ''" "'' comma''"
      "''comma actual comma actual new line''"]
  note t2 = t[THEN conjunct2, THEN conjunct1]
  note t3 = t[THEN conjunct2, THEN conjunct2, THEN conjunct1]
  note t4 = t[THEN conjunct2, THEN conjunct2, THEN conjunct2, THEN conjunct1]
  note t5 = t[THEN conjunct2, THEN conjunct2, THEN conjunct2, THEN conjunct2, THEN conjunct1]
  note t6 = t[THEN conjunct2, THEN conjunct2, THEN conjunct2, THEN conjunct2, THEN conjunct2,
      THEN conjunct2]
  have a: "\<exists>x. literal_substitute ''say comma COMMA_PLACEHOLDER comma'' =
      x @ ''COMMA_PLACEHOLDER , ''"
    using t2 marked_example(1) by simp
  have b: "protect ''comma actual comma actual new line'' =
      ''comma COMMA_PLACEHOLDERNEW_LINE_PLACEHOLDER''"
    unfolding t3 by (rule marked_example(2))
  have c: "literal_substitute (protect ''comma actual comma actual new line'') =
      '', COMMA_PLACEHOLDERNEW_LINE_PLACEHOLDER''"
    unfolding t4 by (rule marked_example(4))
  have d: "marks (marked_substitute (marked_protect
      (map C ''comma actual comma actual new line''))) = [2, 0]"
    unfolding t5 by (rule marked_example(3))
  have e: "clean_transcript ''comma actual comma actual new line'' = '', comma new line ''"
    unfolding t6 by (rule marked_example(5))
  show ?thesis
    using h a b c d e by blast
qed

section \<open>The punctuation clean-up run twice\<close>

subsection \<open>The passes\<close>

lemma ahead_simps [simp]:
  "ahead Q [] = False"
  "ahead Q (x # xs) = (if isspace x then ahead Q xs else Q x)"
  by (simp_all add: ahead_def)

lemma not_space_punct: "x \<in> set punct \<Longrightarrow> \<not> isspace x"
  by (auto simp: punct_def isspace_def)

lemma not_space_dq [simp]: "\<not> isspace dq"
  by (simp add: dq_def isspace_def)

lemma dq_not_punct [simp]: "dq \<notin> set punct"
  by (simp add: dq_def punct_def)

lemma ahead_mono: "ahead Q s \<Longrightarrow> (\<And>y. Q y \<Longrightarrow> Q' y) \<Longrightarrow> ahead Q' s"
  by (induction s) (auto split: if_splits)

lemma ok_weaken: "ok R p s \<Longrightarrow> ok R None s"
  by (cases s) simp_all

lemma ok_change: "ok R p s \<Longrightarrow> (\<And>y. \<not> R c y) \<Longrightarrow> ok R (Some c) s"
  by (cases s) simp_all

lemma ok_no_ahead:
  assumes "\<And>y. Q y \<Longrightarrow> \<not> isspace y"
  shows "ok (\<lambda>x y. isspace x \<and> Q y) (Some x) s \<Longrightarrow> isspace x \<Longrightarrow> \<not> ahead Q s"
  by (induction s arbitrary: x) (auto split: if_splits)

text \<open>Each pass is the identity on a text that has nothing for it to drop.\<close>

lemma unspace_before_id:
  assumes "\<And>y. Q y \<Longrightarrow> \<not> isspace y"
  shows "ok (\<lambda>x y. isspace x \<and> Q y) p s \<Longrightarrow> unspace_before Q s = s"
proof (induction s arbitrary: p)
  case Nil
  then show ?case by simp
next
  case (Cons x xs)
  then have "ok (\<lambda>x y. isspace x \<and> Q y) (Some x) xs" by simp
  then show ?case
    using Cons.IH[of "Some x"] ok_no_ahead[OF assms, where x = x and s = xs] by auto
qed

lemma unspace_after_id:
  "ok quote_space p s \<Longrightarrow> (q \<Longrightarrow> p = Some dq) \<Longrightarrow> unspace_after q s = s"
proof (induction s arbitrary: p q)
  case Nil
  then show ?case by simp
next
  case (Cons x xs)
  have "\<not> (q \<and> isspace x)"
    using Cons.prems by auto
  then show ?case
    using Cons.IH[of "Some x" "x = dq"] Cons.prems(1) by auto
qed

lemma collapse_id:
  "ok space_mark q s \<Longrightarrow>
   (case md of None \<Rightarrow> True | Some p \<Rightarrow> p \<in> set punct \<and> ok same_mark (Some p) s) \<Longrightarrow>
   ok same_mark None s \<Longrightarrow> collapse md s = s"
proof (induction s arbitrary: md q)
  case Nil
  then show ?case by simp
next
  case (Cons x xs)
  have keep: "\<not> (case md of None \<Rightarrow> False
      | Some p \<Rightarrow> x = p \<or> (isspace x \<and> ahead (\<lambda>y. y = p) xs))"
  proof (cases md)
    case None
    then show ?thesis by simp
  next
    case (Some p)
    then have p: "p \<in> set punct" "x \<noteq> p"
      using Cons.prems(2) by auto
    have "\<not> ahead (\<lambda>y. y = p) xs" if "isspace x"
    proof
      assume "ahead (\<lambda>y. y = p) xs"
      then have "ahead (\<lambda>y. y \<in> set punct) xs"
        using ahead_mono[of "\<lambda>y. y = p" xs "\<lambda>y. y \<in> set punct"] p(1) by blast
      moreover have "ok space_mark (Some x) xs"
        using Cons.prems(1) by simp
      ultimately show False
        using ok_no_ahead[of "\<lambda>y. y \<in> set punct" x xs] that not_space_punct by blast
    qed
    then show ?thesis
      using Some p by auto
  qed
  have a: "ok same_mark (Some x) xs"
    using Cons.prems(3) by simp
  have b: "ok space_mark (Some x) xs"
    using Cons.prems(1) by simp
  have "collapse (if x \<in> set punct then Some x else None) xs = xs"
    by (rule Cons.IH[OF b _ ok_weaken[OF a]]) (use a in auto)
  then show ?case
    using keep by simp
qed

text \<open>What each pass establishes, and what it keeps of the earlier passes.\<close>

lemma norep_not_mark: "c \<notin> set punct \<Longrightarrow> norep (Some c) s = norep None s"
  by (cases s) simp_all

lemma ahead_collapse_None: "ahead Q (collapse None s) = ahead Q s"
proof (induction s)
  case Nil
  then show ?case by simp
next
  case (Cons x xs)
  then show ?case
    using not_space_punct[of x] by auto
qed

lemma collapse_norep:
  "(case md of None \<Rightarrow> True | Some p \<Rightarrow> p \<in> set punct) \<Longrightarrow> norep md (collapse md s)"
proof (induction s arbitrary: md)
  case Nil
  then show ?case by simp
next
  case (Cons x xs)
  let ?drop = "case md of None \<Rightarrow> False
      | Some p \<Rightarrow> x = p \<or> (isspace x \<and> ahead (\<lambda>y. y = p) xs)"
  let ?md = "if x \<in> set punct then Some x else None"
  show ?case
  proof (cases ?drop)
    case True
    then show ?thesis
      using Cons.IH[OF Cons.prems] by simp
  next
    case False
    have tl: "norep (Some x) (collapse ?md xs)"
      using Cons.IH[of ?md] norep_not_mark[of x "collapse None xs"] by auto
    have hd: "\<not> ahead (\<lambda>y. y = p) (x # collapse ?md xs)" if "md = Some p" for p
      using that False not_space_punct[of x] by (auto simp: ahead_collapse_None)
    show ?thesis
      using False tl hd by (cases md) auto
  qed
qed

lemma unspace_before_same_mark: "norep p s \<Longrightarrow> ok same_mark p (unspace_before is_mark s)"
proof (induction s arbitrary: p)
  case Nil
  then show ?case by simp
next
  case (Cons x xs)
  show ?case
  proof (cases "isspace x \<and> ahead is_mark xs")
    case True
    have "norep p xs"
      using Cons.prems True by (cases xs; cases p) auto
    then show ?thesis
      using Cons.IH[of p] True by simp
  next
    case False
    have "ok same_mark (Some x) (unspace_before is_mark xs)"
      using Cons.prems by (intro Cons.IH) simp
    moreover have "\<not> same_mark c x" if "p = Some c" for c
      using Cons.prems that not_space_punct[of x] by auto
    ultimately show ?thesis
      using False by (cases p) auto
  qed
qed

lemma unspace_before_ok:
  assumes "\<And>y. Q y \<Longrightarrow> \<not> isspace y"
  shows "(case p of None \<Rightarrow> True | Some c \<Rightarrow> isspace c \<longrightarrow> \<not> ahead Q s) \<Longrightarrow>
    ok (\<lambda>x y. isspace x \<and> Q y) p (unspace_before Q s)"
proof (induction s arbitrary: p)
  case Nil
  then show ?case by simp
next
  case (Cons x xs)
  show ?case
  proof (cases "isspace x \<and> ahead Q xs")
    case True
    then show ?thesis
      using Cons.IH[of p] Cons.prems by (cases p) auto
  next
    case False
    have "ok (\<lambda>x y. isspace x \<and> Q y) (Some x) (unspace_before Q xs)"
      using False by (intro Cons.IH) auto
    moreover have "\<not> (isspace c \<and> Q x)" if "p = Some c" for c
      using Cons.prems that assms[of x] by (auto split: if_splits)
    ultimately show ?thesis
      using False by (cases p) auto
  qed
qed

lemma unspace_before_keeps:
  assumes r1: "\<And>c y. Q y \<Longrightarrow> \<not> R c y"
    and r2: "\<And>c y x. isspace x \<Longrightarrow> isspace y \<Longrightarrow> R c y \<Longrightarrow> R c x"
  shows "ok R p s \<Longrightarrow> ok R p (unspace_before Q s)"
proof (induction s arbitrary: p)
  case Nil
  then show ?case by simp
next
  case (Cons x xs)
  show ?case
  proof (cases "isspace x \<and> ahead Q xs")
    case True
    then obtain y ys where xs: "xs = y # ys"
      by (cases xs) auto
    have "\<not> R c y" if "p = Some c" for c
    proof (cases "isspace y")
      case True
      then show ?thesis
        using r2[of x y c] \<open>isspace x \<and> ahead Q xs\<close> Cons.prems that by auto
    next
      case False
      then show ?thesis
        using r1[of y c] \<open>isspace x \<and> ahead Q xs\<close> xs by auto
    qed
    then have "ok R p xs"
      using Cons.prems xs by (cases p) auto
    then show ?thesis
      using Cons.IH[of p] True by simp
  next
    case False
    then show ?thesis
      using Cons.IH[of "Some x"] Cons.prems by auto
  qed
qed

lemma unspace_after_keeps:
  assumes "\<And>y. \<not> R dq y"
  shows "ok R p s \<Longrightarrow> (q \<Longrightarrow> p = Some dq) \<Longrightarrow> ok R p (unspace_after q s)"
proof (induction s arbitrary: p q)
  case Nil
  then show ?case by simp
next
  case (Cons x xs)
  show ?case
  proof (cases "q \<and> isspace x")
    case True
    then have "ok R (Some dq) xs"
      using Cons.prems(1) ok_change[of R "Some x" xs dq] assms by simp
    then show ?thesis
      using Cons.IH[of "Some dq" True] True Cons.prems(2) by simp
  next
    case False
    then show ?thesis
      using Cons.IH[of "Some x" "x = dq"] Cons.prems(1) by auto
  qed
qed

lemma unspace_after_ok:
  "(p = Some dq \<Longrightarrow> q) \<Longrightarrow> ok quote_space p (unspace_after q s)"
proof (induction s arbitrary: p q)
  case Nil
  then show ?case by simp
next
  case (Cons x xs)
  show ?case
  proof (cases "q \<and> isspace x")
    case True
    then show ?thesis
      using Cons.IH[of p True] by simp
  next
    case False
    then show ?thesis
      using Cons.IH[of "Some x" "x = dq"] Cons.prems by (cases p) auto
  qed
qed

lemma tidy_normal:
  "ok same_mark None (tidy s)" "ok space_mark None (tidy s)"
  "ok quote_space None (tidy s)" "ok space_quote None (tidy s)"
proof -
  let ?s1 = "collapse None s"
  let ?s2 = "unspace_before is_mark ?s1"
  let ?s3 = "unspace_after False ?s2"
  have a2: "ok same_mark None ?s2"
    by (rule unspace_before_same_mark) (simp add: collapse_norep)
  have c2: "ok space_mark None ?s2"
    by (rule unspace_before_ok) (simp_all add: not_space_punct)
  have a3: "ok same_mark None ?s3"
    using a2 by (rule unspace_after_keeps[rotated]) simp_all
  have c3: "ok space_mark None ?s3"
    using c2 by (rule unspace_after_keeps[rotated]) simp_all
  have d3: "ok quote_space None ?s3"
    by (rule unspace_after_ok) simp
  show "ok same_mark None (tidy s)"
    unfolding tidy_def using a3
    by (rule unspace_before_keeps[rotated 2]) (auto dest: not_space_punct)
  show "ok space_mark None (tidy s)"
    unfolding tidy_def using c3
    by (rule unspace_before_keeps[rotated 2]) (auto dest: not_space_punct)
  show "ok quote_space None (tidy s)"
    unfolding tidy_def using d3 by (rule unspace_before_keeps[rotated 2]) auto
  show "ok space_quote None (tidy s)"
    unfolding tidy_def by (rule unspace_before_ok) simp_all
qed

lemma tidy_fixed:
  assumes "ok same_mark None t" and "ok space_mark None t" and "ok quote_space None t"
    and "ok space_quote None t"
  shows "tidy t = t"
proof -
  have "collapse None t = t"
    using assms(2) _ assms(1) by (rule collapse_id) simp
  moreover have "unspace_before is_mark t = t"
    using assms(2) by (rule unspace_before_id[rotated]) (simp add: not_space_punct)
  moreover have "unspace_after False t = t"
    using assms(3) by (rule unspace_after_id) simp
  moreover have "unspace_before is_quote t = t"
    using assms(4) by (rule unspace_before_id[rotated]) simp
  ultimately show ?thesis
    by (simp add: tidy_def)
qed

lemma tidy_idem: "tidy (tidy s) = tidy s"
  by (rule tidy_fixed) (rule tidy_normal)+

subsection \<open>The clean-up rules as passes\<close>

lemma spaces_simps [simp]:
  "spaces [] = 0"
  "spaces (x # xs) = (if isspace x then Suc (spaces xs) else 0)"
  by (simp_all add: spaces_def)

lemma spaces_le: "spaces s \<le> length s"
  by (simp add: spaces_def length_takeWhile_le)

lemma ahead_spaces: "ahead Q s \<longleftrightarrow> spaces s < length s \<and> Q (s ! spaces s)"
  by (induction s) auto

lemma run_Space:
  "run Space m = (if rest m \<noteq> [] \<and> isspace (hd (rest m)) then [advance 1 m] else [])"
  by (cases "rest m") auto

lemma loop_space_then:
  assumes f: "\<And>m. f m = (if rest m \<noteq> [] \<and> isspace (hd (rest m)) then [advance 1 m] else [])"
    and g: "\<And>m'. grp m' = G \<Longrightarrow> rest m' \<noteq> [] \<Longrightarrow> isspace (hd (rest m')) \<Longrightarrow> g m' = []"
  shows "length (rest m) \<le> n \<Longrightarrow> grp m = G \<Longrightarrow>
    concat (map g (loop f n m)) = g (advance (spaces (rest m)) m)"
proof (induction n arbitrary: m)
  case 0
  then show ?case by simp
next
  case (Suc n)
  show ?case
  proof (cases "rest m \<noteq> [] \<and> isspace (hd (rest m))")
    case True
    then obtain c cs where r: "rest m = c # cs" "isspace c"
      by (cases "rest m") auto
    have "concat (map g (loop f n (advance 1 m))) =
        g (advance (spaces (rest (advance 1 m))) (advance 1 m))"
      using Suc.prems r by (intro Suc.IH) simp_all
    moreover have "advance (spaces cs) (advance 1 m) = advance (Suc (spaces cs)) m"
      using spaces_le[of cs] r by (simp add: advance_advance)
    moreover have "g m = []"
      using g[of m] True Suc.prems(2) by simp
    moreover have "f m = [advance 1 m]"
      using True f[of m] by presburger
    ultimately show ?thesis
      using r by simp
  next
    case False
    then have "spaces (rest m) = 0"
      by (cases "rest m") auto
    moreover have "f m = []"
      using False f[of m] by presburger
    ultimately show ?thesis
      by simp
  qed
qed

lemma loop_space_hd:
  assumes f: "\<And>m. f m = (if rest m \<noteq> [] \<and> isspace (hd (rest m)) then [advance 1 m] else [])"
  shows "length (rest m) \<le> n \<Longrightarrow> \<exists>ms. loop f n m = advance (spaces (rest m)) m # ms"
proof (induction n arbitrary: m)
  case 0
  then show ?case by simp
next
  case (Suc n)
  show ?case
  proof (cases "rest m \<noteq> [] \<and> isspace (hd (rest m))")
    case True
    then obtain c cs where r: "rest m = c # cs" "isspace c"
      by (cases "rest m") auto
    obtain ms where "loop f n (advance 1 m) =
        advance (spaces (rest (advance 1 m))) (advance 1 m) # ms"
      using Suc.IH[of "advance 1 m"] Suc.prems r by auto
    moreover have "advance (spaces cs) (advance 1 m) = advance (Suc (spaces cs)) m"
      using spaces_le[of cs] r by (simp add: advance_advance)
    moreover have "f m = [advance 1 m]"
      using True f[of m] by presburger
    ultimately show ?thesis
      using r by simp
  next
    case False
    then have "spaces (rest m) = 0"
      by (cases "rest m") auto
    moreover have "f m = []"
      using False f[of m] by presburger
    ultimately show ?thesis
      by simp
  qed
qed

lemma run_star_space:
  assumes "\<And>m'. grp m' = grp m \<Longrightarrow> rest m' \<noteq> [] \<Longrightarrow> isspace (hd (rest m')) \<Longrightarrow>
      run (cat rs) m' = []"
  shows "run (cat (Star Space # rs)) m = run (cat rs) (advance (spaces (rest m)) m)"
proof -
  have "run (cat (Star Space # rs)) m =
      concat (map (run (cat rs)) (loop (run Space) (length (rest m)) m))"
    by (simp only: run_cat_Cons run.simps)
  then show ?thesis
    using loop_space_then[of "run Space" "grp m" "run (cat rs)" m "length (rest m)",
        OF run_Space] assms
    by simp
qed

lemma run_plus_space:
  assumes "\<And>m'. grp m' = grp m \<Longrightarrow> rest m' \<noteq> [] \<Longrightarrow> isspace (hd (rest m')) \<Longrightarrow>
      run (cat rs) m' = []"
  shows "run (cat (Plus Space # rs)) m =
    (if 0 < spaces (rest m) then run (cat rs) (advance (spaces (rest m)) m) else [])"
proof -
  have unfold: "run (cat (Plus Space # rs)) m =
      concat (map (run (cat rs))
        (concat (map (\<lambda>m'. loop (run Space) (length (rest m')) m') (run Space m))))"
    by (simp only: run_cat_Cons run.simps)
  show ?thesis
  proof (cases "rest m \<noteq> [] \<and> isspace (hd (rest m))")
    case True
    then obtain c cs where r: "rest m = c # cs" "isspace c"
      by (cases "rest m") auto
    have "concat (map (run (cat rs)) (loop (run Space) (length (rest (advance 1 m)))
          (advance 1 m))) =
        run (cat rs) (advance (spaces (rest (advance 1 m))) (advance 1 m))"
      using assms by (intro loop_space_then[of "run Space" "grp m", OF run_Space]) simp_all
    moreover have "advance (spaces cs) (advance 1 m) = advance (Suc (spaces cs)) m"
      using spaces_le[of cs] r by (simp add: advance_advance)
    moreover have "run Space m = [advance 1 m]"
      using True run_Space[of m] by presburger
    ultimately show ?thesis
      unfolding unfold using r by simp
  next
    case False
    then have "spaces (rest m) = 0"
      by (cases "rest m") auto
    moreover have "run Space m = []"
      using False run_Space[of m] by presburger
    ultimately show ?thesis
      unfolding unfold by simp
  qed
qed

lemma lower_in_punct: "lower c \<in> lower ` set punct \<longleftrightarrow> c \<in> set punct"
  by (auto simp: punct_def)

lemma looking_at_one:
  "looking_at [a] m \<longleftrightarrow> rest m \<noteq> [] \<and> lower (hd (rest m)) = lower a"
  by (cases "rest m") (auto simp: looking_at_def)

lemma run_cat_Nil_fun: "run (cat []) = (\<lambda>m. [m])"
  by (rule ext) simp

lemma concat_singletons: "concat (map (\<lambda>m. [m]) ms) = ms"
  by (induction ms) simp_all

lemma run_cat_one: "run (cat [r]) m = run r m"
  by (simp only: run_cat_Cons run_cat_Nil_fun concat_singletons)

lemma run_group_punct:
  "run (cat [Group (Set punct)]) m =
     (if rest m \<noteq> [] \<and> hd (rest m) \<in> set punct
      then [(advance 1 m)\<lparr>grp := Some [hd (rest m)]\<rparr>] else [])"
  by (cases "rest m") (simp_all add: run_cat_one lower_in_punct)

lemma unspace_before_run:
  assumes "\<And>y. Q y \<Longrightarrow> \<not> isspace y"
  shows "ahead Q s \<Longrightarrow>
    unspace_before Q s = s ! spaces s # unspace_before Q (drop (Suc (spaces s)) s)"
  using assms by (induction s) auto

lemma re_sub_unspace_before:
  assumes Q: "\<And>y. Q y \<Longrightarrow> \<not> isspace y"
    and none: "\<And>s p. \<not> (0 < spaces s \<and> ahead Q s) \<Longrightarrow> match_at r False p s = None"
    and some: "\<And>s p. 0 < spaces s \<and> ahead Q s \<Longrightarrow>
      \<exists>m. match_at r False p s = Some m \<and> used m = Suc (spaces s) \<and>
        expand t m = [s ! spaces s]"
  shows "re_sub_from r t p s = unspace_before Q s"
proof (induction s arbitrary: p rule: measure_induct_rule[where f = length])
  case (less s)
  show ?case
  proof (cases s)
    case Nil
    then show ?thesis
      using none[of "[]" p] by simp
  next
    case (Cons c cs)
    show ?thesis
    proof (cases "0 < spaces s \<and> ahead Q s")
      case True
      then obtain m where m: "match_at r False p s = Some m" "used m = Suc (spaces s)"
          "expand t m = [s ! spaces s]"
        using some[of s p] by auto
      have "drop (spaces s) cs = drop (Suc (spaces s)) s"
        using Cons by simp
      moreover have "re_sub_from r t (prev m) (drop (Suc (spaces s)) s) =
          unspace_before Q (drop (Suc (spaces s)) s)"
        using Cons by (intro less) simp
      ultimately have "re_sub_from r t p s =
          s ! spaces s # unspace_before Q (drop (Suc (spaces s)) s)"
        using m Cons by simp
      then show ?thesis
        using unspace_before_run[OF Q, where s = s] True by simp
    next
      case False
      then have "\<not> (isspace c \<and> ahead Q cs)"
        using Cons by auto
      then show ?thesis
        using none[OF False, of p] Cons less[of cs "Some c"] by auto
    qed
  qed
qed

lemma re_sub_space_mark:
  "re_sub_from (cat [Plus Space, Group (Set punct)]) [Group1] p s = unspace_before is_mark s"
proof (rule re_sub_unspace_before)
  fix s p
  have run: "run (cat [Plus Space, Group (Set punct)]) (start p s) =
      (if 0 < spaces s \<and> ahead is_mark s
       then [(advance 1 (advance (spaces s) (start p s)))\<lparr>grp := Some [s ! spaces s]\<rparr>]
       else [])"
    using spaces_le[of s]
    by (subst run_plus_space)
       (auto simp: run_group_punct ahead_spaces hd_drop_conv_nth dest: not_space_punct)
  show "match_at (cat [Plus Space, Group (Set punct)]) False p s = None"
    if "\<not> (0 < spaces s \<and> ahead is_mark s)"
    using that by (simp add: match_at_head run)
  show "\<exists>m. match_at (cat [Plus Space, Group (Set punct)]) False p s = Some m \<and>
      used m = Suc (spaces s) \<and> expand [Group1] m = [s ! spaces s]"
    if "0 < spaces s \<and> ahead is_mark s"
    using that by (simp add: match_at_head run)
qed (simp add: not_space_punct)

lemma re_sub_space_quote:
  "re_sub_from (cat [Plus Space, Str [dq]]) [Text [dq]] p s = unspace_before is_quote s"
proof (rule re_sub_unspace_before)
  fix s p
  have run: "run (cat [Plus Space, Str [dq]]) (start p s) =
      (if 0 < spaces s \<and> ahead is_quote s
       then [advance 1 (advance (spaces s) (start p s))] else [])"
    using spaces_le[of s]
    by (subst run_plus_space)
       (auto simp: run_cat_Str looking_at_one ahead_spaces hd_drop_conv_nth)
  show "match_at (cat [Plus Space, Str [dq]]) False p s = None"
    if "\<not> (0 < spaces s \<and> ahead is_quote s)"
    using that by (simp add: match_at_head run)
  show "\<exists>m. match_at (cat [Plus Space, Str [dq]]) False p s = Some m \<and>
      used m = Suc (spaces s) \<and> expand [Text [dq]] m = [s ! spaces s]"
    if "0 < spaces s \<and> ahead is_quote s"
    using that by (simp add: match_at_head run ahead_spaces)
qed simp

lemma unspace_after_True: "unspace_after True s = unspace_after False (drop (spaces s) s)"
  by (induction s) auto

lemma run_plus_space_only:
  "\<exists>ms. run (cat [Plus Space]) m =
     (if 0 < spaces (rest m) then advance (spaces (rest m)) m # ms else [])"
proof (cases "rest m \<noteq> [] \<and> isspace (hd (rest m))")
  case True
  then obtain c cs where r: "rest m = c # cs" "isspace c"
    by (cases "rest m") auto
  have "run Space m = [advance 1 m]"
    using True run_Space[of m] by presburger
  then have "run (cat [Plus Space]) m = loop (run Space) (length (rest (advance 1 m))) (advance 1 m)"
    by (simp only: run_cat_one run.simps list.map concat.simps append_Nil2)
  moreover obtain ms where "loop (run Space) (length (rest (advance 1 m))) (advance 1 m) =
      advance (spaces (rest (advance 1 m))) (advance 1 m) # ms"
    using loop_space_hd[of "run Space" "advance 1 m", OF run_Space] by blast
  moreover have "advance (spaces cs) (advance 1 m) = advance (Suc (spaces cs)) m"
    using spaces_le[of cs] r by (simp add: advance_advance)
  ultimately show ?thesis
    using r by simp
next
  case False
  then have "spaces (rest m) = 0"
    by (cases "rest m") auto
  moreover have "run Space m = []"
    using False run_Space[of m] by presburger
  then have "run (cat [Plus Space]) m = []"
    by (simp only: run_cat_one run.simps list.map concat.simps)
  ultimately show ?thesis
    by simp
qed

lemma match_quote_space:
  "match_at (cat [Str [dq], Plus Space]) False p s =
     (if s \<noteq> [] \<and> hd s = dq \<and> 0 < spaces (tl s)
      then Some (advance (Suc (spaces (tl s))) (start p s)) else None)"
proof (cases "s \<noteq> [] \<and> hd s = dq")
  case True
  then obtain cs where s: "s = dq # cs"
    by (cases s) auto
  have r: "rest (advance 1 (start p s)) = cs"
    using s by simp
  obtain ms where "run (cat [Plus Space]) (advance 1 (start p s)) =
      (if 0 < spaces (rest (advance 1 (start p s)))
       then advance (spaces (rest (advance 1 (start p s)))) (advance 1 (start p s)) # ms
       else [])"
    using run_plus_space_only[of "advance 1 (start p s)"] by blast
  then have "run (cat [Plus Space]) (advance 1 (start p s)) =
      (if 0 < spaces cs then advance (spaces cs) (advance 1 (start p s)) # ms else [])"
    unfolding r .
  moreover have "advance (spaces cs) (advance 1 (start p s)) = advance (Suc (spaces cs)) (start p s)"
    using spaces_le[of cs] s by (simp add: advance_advance)
  ultimately show ?thesis
    using s by (simp add: match_at_head run_cat_Str looking_at_one)
next
  case False
  then show ?thesis
    by (auto simp: match_at_head run_cat_Str looking_at_one)
qed

lemma re_sub_quote_space:
  "re_sub_from (cat [Str [dq], Plus Space]) [Text [dq]] p s = unspace_after False s"
proof (induction s arbitrary: p rule: measure_induct_rule[where f = length])
  case (less s)
  show ?case
  proof (cases s)
    case Nil
    then show ?thesis
      by (simp add: match_quote_space)
  next
    case (Cons c cs)
    show ?thesis
    proof (cases "c = dq \<and> 0 < spaces cs")
      case True
      have "re_sub_from (cat [Str [dq], Plus Space]) [Text [dq]]
          (prev (advance (Suc (spaces cs)) (start p s))) (drop (spaces cs) cs) =
          unspace_after False (drop (spaces cs) cs)"
        using Cons by (intro less) simp
      then show ?thesis
        using True Cons by (simp add: match_quote_space unspace_after_True)
    next
      case False
      have "unspace_after (c = dq) cs = unspace_after False cs"
        using False by (cases "c = dq") (simp_all add: unspace_after_True)
      then show ?thesis
        using False Cons less[of cs "Some c"] by (auto simp: match_quote_space)
    qed
  qed
qed

lemma collapse_no_ahead:
  "p \<in> set punct \<Longrightarrow> \<not> ahead (\<lambda>y. y = p) s \<Longrightarrow> collapse (Some p) s = collapse None s"
  using not_space_punct[of p] by (cases s) (auto split: if_splits)

lemma collapse_ahead:
  "p \<in> set punct \<Longrightarrow> ahead (\<lambda>y. y = p) s \<Longrightarrow>
   collapse (Some p) s = collapse (Some p) (drop (Suc (spaces s)) s)"
proof (induction s)
  case Nil
  then show ?case by simp
next
  case (Cons x xs)
  show ?case
  proof (cases "isspace x")
    case True
    then have "ahead (\<lambda>y. y = p) xs"
      using Cons.prems(2) by simp
    then have "collapse (Some p) (x # xs) = collapse (Some p) (drop (Suc (spaces xs)) xs)"
      using Cons.IH[OF Cons.prems(1)] True by simp
    then show ?thesis
      using True by simp
  next
    case False
    then have "x = p"
      using Cons.prems(2) by simp
    then show ?thesis
      using False by simp
  qed
qed

lemma lower_eq_punct: "p \<in> set punct \<Longrightarrow> lower c = lower p \<longleftrightarrow> c = p"
  by (auto simp: punct_def)

lemma run_repeat:
  assumes "grp m = Some [p]" and "p \<in> set punct"
  shows "run (cat [Star Space, Backref]) m =
     (if ahead (\<lambda>y. y = p) (rest m) then [advance (Suc (spaces (rest m))) m] else [])"
proof -
  have b: "run (cat [Backref]) m' =
      (if rest m' \<noteq> [] \<and> hd (rest m') = p then [advance 1 m'] else [])"
    if "grp m' = Some [p]" for m'
    using that assms(2) by (simp add: run_cat_one looking_at_one lower_eq_punct)
  have "run (cat [Star Space, Backref]) m =
      run (cat [Backref]) (advance (spaces (rest m)) m)"
    using assms not_space_punct[of p] by (intro run_star_space) (auto simp: b)
  moreover have "advance 1 (advance (spaces (rest m)) m) = advance (Suc (spaces (rest m))) m"
    if "spaces (rest m) < length (rest m)"
    using that by (simp add: advance_advance)
  ultimately show ?thesis
    using assms(1) by (auto simp: b ahead_spaces hd_drop_conv_nth)
qed

lemma loop_collapse:
  assumes f: "\<And>m. grp m = Some [p] \<Longrightarrow> f m =
      (if ahead (\<lambda>y. y = p) (rest m) then [advance (Suc (spaces (rest m))) m] else [])"
    and p: "p \<in> set punct"
  shows "length (rest m) \<le> n \<Longrightarrow> grp m = Some [p] \<Longrightarrow>
    \<exists>d ms. loop f n m = advance d m # ms \<and> d \<le> length (rest m) \<and>
      collapse (Some p) (rest m) = collapse None (drop d (rest m))"
proof (induction n arbitrary: m)
  case 0
  then have "loop f 0 m = advance 0 m # [] \<and> 0 \<le> length (rest m) \<and>
      collapse (Some p) (rest m) = collapse None (drop 0 (rest m))"
    by simp
  then show ?case by blast
next
  case (Suc n)
  show ?case
  proof (cases "ahead (\<lambda>y. y = p) (rest m)")
    case True
    let ?k = "Suc (spaces (rest m))"
    have k: "?k \<le> length (rest m)"
      using True by (simp add: ahead_spaces)
    have fm: "f m = [advance ?k m]"
      using f[OF Suc.prems(2)] True by simp
    have len: "length (rest (advance ?k m)) \<le> n" and g: "grp (advance ?k m) = Some [p]"
      using Suc.prems k by simp_all
    obtain d ms where d: "loop f n (advance ?k m) = advance d (advance ?k m) # ms"
        "d \<le> length (rest (advance ?k m))"
        "collapse (Some p) (rest (advance ?k m)) = collapse None (drop d (rest (advance ?k m)))"
      using Suc.IH[OF len g] by blast
    have "advance d (advance ?k m) = advance (d + ?k) m"
      using d(2) k by (intro advance_advance) simp
    moreover have "collapse (Some p) (rest m) = collapse None (drop (d + ?k) (rest m))"
      using collapse_ahead[OF p True] d(3) by (simp add: add.commute)
    moreover have "d + ?k \<le> length (rest m)"
      using d(2) k by simp
    ultimately have "loop f (Suc n) m = advance (d + ?k) m # (ms @ [m]) \<and>
        d + ?k \<le> length (rest m) \<and>
        collapse (Some p) (rest m) = collapse None (drop (d + ?k) (rest m))"
      using fm d(1) by simp
    then show ?thesis by blast
  next
    case False
    have fm: "f m = []"
      using f[OF Suc.prems(2)] False by simp
    have "loop f (Suc n) m = advance 0 m # [] \<and> 0 \<le> length (rest m) \<and>
        collapse (Some p) (rest m) = collapse None (drop 0 (rest m))"
      using fm collapse_no_ahead[OF p False] by simp
    then show ?thesis by blast
  qed
qed

lemma match_repeat_none:
  assumes "s = [] \<or> \<not> (hd s \<in> set punct \<and> ahead (\<lambda>y. y = hd s) (tl s))"
  shows "match_at (cat [Group (Set punct), Plus (cat [Star Space, Backref])]) False p s = None"
proof -
  let ?B = "cat [Star Space, Backref]"
  have plus: "run (cat [Plus ?B]) m =
      concat (map (\<lambda>m'. loop (run ?B) (length (rest m')) m') (run ?B m))" for m
    by (simp only: run_cat_one run.simps)
  have "run (cat [Group (Set punct), Plus ?B]) (start p s) = []"
  proof (cases "s \<noteq> [] \<and> hd s \<in> set punct")
    case True
    let ?m1 = "(advance 1 (start p s))\<lparr>grp := Some [hd s]\<rparr>"
    have "run ?B ?m1 = []"
      using True assms by (subst run_repeat[of _ "hd s"]) (auto simp: drop_Suc)
    then have "run (cat [Plus ?B]) ?m1 = []"
      unfolding plus by simp
    moreover have "run (Group (Set punct)) (start p s) = [?m1]"
      using True run_group_punct[of "start p s"] by (simp add: run_cat_one)
    ultimately show ?thesis
      by (subst run_cat_Cons) simp
  next
    case False
    then have "run (Group (Set punct)) (start p s) = []"
      using run_group_punct[of "start p s"] by (simp add: run_cat_one)
    then show ?thesis
      by (subst run_cat_Cons) simp
  qed
  then show ?thesis
    by (simp add: match_at_head)
qed

lemma match_repeat_some:
  assumes c: "c \<in> set punct" and a: "ahead (\<lambda>y. y = c) cs"
  shows "\<exists>m. match_at (cat [Group (Set punct), Plus (cat [Star Space, Backref])]) False p
        (c # cs) = Some m \<and>
      grp m = Some [c] \<and> 0 < used m \<and> used m \<le> Suc (length cs) \<and>
      collapse (Some c) cs = collapse None (drop (used m - 1) cs)"
proof -
  let ?B = "cat [Star Space, Backref]"
  let ?s = "c # cs"
  let ?m1 = "(advance 1 (start p ?s))\<lparr>grp := Some [c]\<rparr>"
  let ?k = "Suc (spaces cs)"
  let ?m2 = "advance ?k ?m1"
  have plus: "run (cat [Plus ?B]) m =
      concat (map (\<lambda>m'. loop (run ?B) (length (rest m')) m') (run ?B m))" for m
    by (simp only: run_cat_one run.simps)
  have k: "?k \<le> length cs"
    using a by (simp add: ahead_spaces)
  have g1: "run (Group (Set punct)) (start p ?s) = [?m1]"
    using c run_group_punct[of "start p ?s"] by (simp add: run_cat_one)
  have b1: "run ?B ?m1 = [?m2]"
    using a c by (subst run_repeat[of _ c]) simp_all
  have f: "\<And>m. grp m = Some [c] \<Longrightarrow> run ?B m =
      (if ahead (\<lambda>y. y = c) (rest m) then [advance (Suc (spaces (rest m))) m] else [])"
    using c run_repeat by blast
  obtain d ms where d: "loop (run ?B) (length (rest ?m2)) ?m2 = advance d ?m2 # ms"
      "d \<le> length (rest ?m2)"
      "collapse (Some c) (rest ?m2) = collapse None (drop d (rest ?m2))"
    using loop_collapse[of c "run ?B" ?m2 "length (rest ?m2)", OF f c] by auto
  have "run (cat [Plus ?B]) ?m1 = advance d ?m2 # ms"
    unfolding plus b1 using d(1) by simp
  then have "run (cat [Group (Set punct), Plus ?B]) (start p ?s) = advance d ?m2 # ms"
    using g1 by (subst run_cat_Cons) simp
  then have m: "match_at (cat [Group (Set punct), Plus ?B]) False p ?s = Some (advance d ?m2)"
    by (simp add: match_at_head)
  have "collapse (Some c) cs = collapse (Some c) (drop ?k cs)"
    using collapse_ahead[OF c a] .
  also have "\<dots> = collapse None (drop d (drop ?k cs))"
    using d(3) by simp
  finally have "collapse (Some c) cs = collapse None (drop (used (advance d ?m2) - 1) cs)"
    by (simp add: add.commute)
  moreover have "used (advance d ?m2) \<le> Suc (length cs)"
    using d(2) k by simp
  ultimately show ?thesis
    using m by simp
qed

lemma re_sub_repeat:
  "re_sub_from (cat [Group (Set punct), Plus (cat [Star Space, Backref])]) [Group1] p s =
     collapse None s"
proof (induction s arbitrary: p rule: measure_induct_rule[where f = length])
  case (less s)
  show ?case
  proof (cases s)
    case Nil
    then show ?thesis
      using match_repeat_none[of s p] by simp
  next
    case (Cons c cs)
    show ?thesis
    proof (cases "c \<in> set punct \<and> ahead (\<lambda>y. y = c) cs")
      case True
      then obtain m where m:
          "match_at (cat [Group (Set punct), Plus (cat [Star Space, Backref])]) False p
            (c # cs) = Some m"
          "grp m = Some [c]" "0 < used m" "used m \<le> Suc (length cs)"
          "collapse (Some c) cs = collapse None (drop (used m - 1) cs)"
        using match_repeat_some[of c cs p] by blast
      have "re_sub_from (cat [Group (Set punct), Plus (cat [Star Space, Backref])]) [Group1]
          (prev m) (drop (used m - 1) cs) = collapse None (drop (used m - 1) cs)"
        using Cons by (intro less) simp
      then show ?thesis
        using m True Cons by simp
    next
      case False
      then have "collapse (if c \<in> set punct then Some c else None) cs = collapse None cs"
        using collapse_no_ahead[of c cs] by auto
      then show ?thesis
        using match_repeat_none[of s p] False Cons less[of cs "Some c"] by simp
    qed
  qed
qed

subsection \<open>Texts on which the comma rules find nothing\<close>

lemma ahead_unspace_before: "ahead R (unspace_before Q s) = ahead R s"
  by (induction s) auto

lemma ahead_unspace_after: "ahead R (unspace_after q s) = ahead R s"
  by (induction s arbitrary: q) auto

lemma calm_drop_space: "calm B p (x # xs) \<Longrightarrow> isspace x \<Longrightarrow> calm B p xs"
  by (cases xs) (auto split: option.splits)

lemma calm_head: "calm B (Some x) xs \<Longrightarrow> \<not> ahead (B x) xs"
  by (cases xs) auto

lemma calm_Cons_cong:
  "(\<And>R. ahead R (x # ys) = ahead R (x # xs)) \<Longrightarrow> calm B (Some x) ys \<Longrightarrow>
   calm B p (x # xs) \<Longrightarrow> calm B p (x # ys)"
  by (cases p) (simp_all del: ahead_simps)

lemma calm_collapse:
  "calm B p s \<Longrightarrow> (\<And>c. md = Some c \<Longrightarrow> p = Some c) \<Longrightarrow> calm B p (collapse md s)"
proof (induction s arbitrary: p md)
  case Nil
  then show ?case by simp
next
  case (Cons x xs)
  show ?case
  proof (cases "case md of None \<Rightarrow> False | Some c \<Rightarrow> x = c \<or> (isspace x \<and> ahead (\<lambda>y. y = c) xs)")
    case True
    then obtain c where c: "md = Some c" "x = c \<or> (isspace x \<and> ahead (\<lambda>y. y = c) xs)"
      by (auto split: option.splits)
    then have p: "p = Some c"
      using Cons.prems(2) by simp
    have "calm B p xs"
    proof (cases "isspace x")
      case True
      then show ?thesis
        using Cons.prems(1) by (rule calm_drop_space[rotated])
    next
      case False
      then show ?thesis
        using c Cons.prems(1) p by simp
    qed
    then have "calm B p (collapse md xs)"
      using Cons.prems(2) by (rule Cons.IH)
    then show ?thesis
      using True by simp
  next
    case False
    let ?md = "if x \<in> set punct then Some x else None"
    have e: "collapse md (x # xs) = x # collapse ?md xs"
      using False by simp
    have f1: "calm B (Some x) (collapse ?md xs)"
      using Cons.prems(1) by (intro Cons.IH) (auto split: if_splits)
    have f2: "ahead R (x # collapse ?md xs) = ahead R (x # xs)" for R
      using not_space_punct[of x] by (auto simp: ahead_collapse_None)
    show ?thesis
      unfolding e by (rule calm_Cons_cong[OF f2 f1 Cons.prems(1)])
  qed
qed

lemma calm_unspace_before: "calm B p s \<Longrightarrow> calm B p (unspace_before Q s)"
proof (induction s arbitrary: p)
  case Nil
  then show ?case by simp
next
  case (Cons x xs)
  show ?case
  proof (cases "isspace x \<and> ahead Q xs")
    case True
    then have "calm B p xs"
      using Cons.prems calm_drop_space by blast
    then show ?thesis
      using True Cons.IH by simp
  next
    case False
    have e: "unspace_before Q (x # xs) = x # unspace_before Q xs"
      using False by simp
    have f1: "calm B (Some x) (unspace_before Q xs)"
      using Cons.prems by (intro Cons.IH) simp
    have f2: "ahead R (x # unspace_before Q xs) = ahead R (x # xs)" for R
      by (simp add: ahead_unspace_before)
    show ?thesis
      unfolding e by (rule calm_Cons_cong[OF f2 f1 Cons.prems])
  qed
qed

lemma calm_unspace_after: "calm B p s \<Longrightarrow> calm B p (unspace_after q s)"
proof (induction s arbitrary: p q)
  case Nil
  then show ?case by simp
next
  case (Cons x xs)
  show ?case
  proof (cases "q \<and> isspace x")
    case True
    then have "calm B p xs"
      using Cons.prems calm_drop_space by blast
    then show ?thesis
      using True Cons.IH by simp
  next
    case False
    have e: "unspace_after q (x # xs) = x # unspace_after (x = dq) xs"
      using False by auto
    have f1: "calm B (Some x) (unspace_after (x = dq) xs)"
      using Cons.prems by (intro Cons.IH) simp
    have f2: "ahead R (x # unspace_after (x = dq) xs) = ahead R (x # xs)" for R
      by (simp add: ahead_unspace_after)
    show ?thesis
      unfolding e by (rule calm_Cons_cong[OF f2 f1 Cons.prems])
  qed
qed

lemma re_sub_calm:
  assumes "\<And>p x xs. \<not> ahead (B x) xs \<Longrightarrow> run r (start p (x # xs)) = []"
    and "\<And>p. run r (start p []) = []"
  shows "calm B q s \<Longrightarrow> re_sub_from r t p s = s"
proof (induction s arbitrary: p q)
  case Nil
  then show ?case
    using assms(2)[of p] by (simp add: match_at_head)
next
  case (Cons x xs)
  then have c: "calm B (Some x) xs"
    by simp
  then have "run r (start p (x # xs)) = []"
    by (intro assms(1) calm_head)
  then show ?case
    using Cons.IH[OF c] by (simp add: match_at_head)
qed

lemma comma_period_idle:
  "calm comma_clash q s \<Longrightarrow> re_sub_from (cat [Str '','', Star Space, Str ''.'']) t p s = s"
proof (rule re_sub_calm[where B = comma_clash])
  fix p' :: "char option" and x :: char and xs :: string
  assume n: "\<not> ahead (comma_clash x) xs"
  have tail: "run (cat [Star Space, Str ''.'']) m = []" if "\<not> ahead (\<lambda>y. y = CHR ''.'') (rest m)" for m
  proof -
    have "run (cat [Star Space, Str ''.'']) m =
        run (cat [Str ''.'']) (advance (spaces (rest m)) m)"
      by (intro run_star_space) (auto simp: run_cat_Str looking_at_one isspace_def)
    then show ?thesis
      using that by (auto simp: run_cat_Str looking_at_one ahead_spaces hd_drop_conv_nth)
  qed
  show "run (cat [Str '','', Star Space, Str ''.'']) (start p' (x # xs)) = []"
  proof (cases "x = CHR '',''")
    case True
    then have "\<not> ahead (\<lambda>y. y = CHR ''.'') xs"
      using n ahead_mono[of "\<lambda>y. y = CHR ''.''" xs "comma_clash x"]
      by (auto simp: comma_clash_def)
    then show ?thesis
      by (simp add: run_cat_Str tail)
  next
    case False
    then show ?thesis
      by (simp add: run_cat_Str looking_at_one)
  qed
next
  fix p' :: "char option"
  show "run (cat [Str '','', Star Space, Str ''.'']) (start p' []) = []"
    by (simp add: run_cat_Str looking_at_one)
qed

lemma quote_comma_idle:
  "calm comma_clash q s \<Longrightarrow> re_sub_from (cat [Str [dq], Str '','']) t p s = s"
proof (rule re_sub_calm[where B = comma_clash])
  fix p' :: "char option" and x :: char and xs :: string
  assume n: "\<not> ahead (comma_clash x) xs"
  have "\<not> looking_at [dq, CHR '',''] (start p' (x # xs))"
    using n by (cases xs) (auto simp: looking_at_def comma_clash_def isspace_def)
  then show "run (cat [Str [dq], Str '','']) (start p' (x # xs)) = []"
    by (subst run_cat_Str_Str) (simp add: run_cat_Str)
next
  fix p' :: "char option"
  show "run (cat [Str [dq], Str '','']) (start p' []) = []"
    by (simp add: run_cat_Str looking_at_one)
qed

lemma comma_quote_idle:
  "calm comma_clash q s \<Longrightarrow> re_sub_from (cat [Str '','', Str [dq]]) t p s = s"
proof (rule re_sub_calm[where B = comma_clash])
  fix p' :: "char option" and x :: char and xs :: string
  assume n: "\<not> ahead (comma_clash x) xs"
  have "\<not> looking_at [CHR '','', dq] (start p' (x # xs))"
    using n by (cases xs) (auto simp: looking_at_def comma_clash_def)
  then show "run (cat [Str '','', Str [dq]]) (start p' (x # xs)) = []"
    by (subst run_cat_Str_Str) (simp add: run_cat_Str)
next
  fix p' :: "char option"
  show "run (cat [Str '','', Str [dq]]) (start p' []) = []"
    by (simp add: run_cat_Str looking_at_one)
qed

lemma quiet_tidy: "quiet s \<Longrightarrow> quiet (tidy s)"
  unfolding quiet_def tidy_def
  by (rule calm_unspace_before, rule calm_unspace_after, rule calm_unspace_before,
      rule calm_collapse) simp_all

lemma cleanup_quiet:
  assumes "quiet s"
  shows "cleanup s = tidy s"
proof -
  let ?s1 = "collapse None s"
  let ?s2 = "unspace_before is_mark ?s1"
  let ?s3 = "unspace_after False ?s2"
  let ?s4 = "unspace_before is_quote ?s3"
  have c1: "calm comma_clash None ?s1"
    using assms unfolding quiet_def by (rule calm_collapse) simp
  then have c4: "calm comma_clash None ?s4"
    by (rule calm_unspace_before[OF calm_unspace_after[OF calm_unspace_before]])
  have "cleanup s = ?s4"
    by (simp add: cleanup_def sub_all_def CLEANUP_def re_sub_def re_sub_repeat
        comma_period_idle[OF c1] quote_comma_idle[OF c4] comma_quote_idle[OF c4]
        re_sub_space_mark re_sub_quote_space re_sub_space_quote)
  then show ?thesis
    by (simp add: tidy_def)
qed

lemma ahead_in_set: "ahead Q s \<Longrightarrow> \<exists>y\<in>set s. Q y"
  by (induction s) (auto split: if_splits)

lemma calm_unrelated:
  "(\<And>c y. p = Some c \<or> c \<in> set s \<Longrightarrow> y \<in> set s \<Longrightarrow> \<not> B c y) \<Longrightarrow> calm B p s"
proof (induction s arbitrary: p)
  case Nil
  then show ?case by simp
next
  case (Cons x xs)
  have "calm B (Some x) xs"
    by (rule Cons.IH) (use Cons.prems in auto)
  moreover have "\<not> ahead (B c) (x # xs)" if "p = Some c" for c
    using ahead_in_set[of "B c" "x # xs"] Cons.prems that by blast
  ultimately show ?case
    by (simp del: ahead_simps split: option.splits)
qed

lemma quiet_without_comma_pairs:
  assumes "CHR '','' \<notin> set s \<or> (CHR ''.'' \<notin> set s \<and> dq \<notin> set s)"
  shows "quiet s"
  unfolding quiet_def
  by (rule calm_unrelated) (use assms in \<open>auto simp: comma_clash_def\<close>)

text \<open>
  C4 (as the code has it). Take a text in which no comma is followed, directly or after
  whitespace only, by a period or by a quote, and no quote is followed, directly or
  after whitespace only, by a comma; it may contain any repeated marks and any
  whitespace, commas and periods included. Running the clean-up substitutions on it a
  second time changes nothing. The three rules that rewrite a comma (a comma before a
  period, a comma after a quote, a comma before a quote) run after the rules whose
  input they create, so where one of them applies a second run may change the text
  again.
\<close>

theorem C4_cleanup_idempotent_on_quiet_text:
  assumes "quiet s"
  shows "cleanup (cleanup s) = cleanup s"
  using cleanup_quiet[OF assms] cleanup_quiet[OF quiet_tidy[OF assms]] tidy_idem[of s] by simp

theorem C4_cleanup_idempotent_on_quiet_text_witness:
  "quiet ''hello , , world . . '' \<and>
   cleanup (cleanup ''hello , , world . . '') = cleanup ''hello , , world . . '' \<and>
   quiet (''wait ..  !! '' @ [dq] @ '' now , ok .'') \<and>
   cleanup (cleanup (''wait ..  !! '' @ [dq] @ '' now , ok .'')) =
     cleanup (''wait ..  !! '' @ [dq] @ '' now , ok .'')"
proof -
  have a: "quiet ''hello , , world . . ''"
    by code_simp
  have b: "quiet (''wait ..  !! '' @ [dq] @ '' now , ok .'')"
    by code_simp
  show ?thesis
    using a b C4_cleanup_idempotent_on_quiet_text [OF a]
      C4_cleanup_idempotent_on_quiet_text [OF b]
    by simp
qed

text \<open>
  The text of two commas and a quote contains repeated punctuation, and the second run
  of the clean-up changes it again: the first run leaves a space and the quote, the
  second the quote alone.
\<close>

theorem C4_second_run_changes_counterexample:
  "cleanup ('',,'' @ [dq]) = '' '' @ [dq] \<and>
   cleanup (cleanup ('',,'' @ [dq])) = [dq] \<and>
   cleanup (cleanup ('',,'' @ [dq])) \<noteq> cleanup ('',,'' @ [dq])"
  by code_simp

end
